theory Spec2Isabelle
  imports Main "HOL-Library.Word"
begin

section \<open>JavaScript strings\<close>

text \<open>
  A JavaScript string is a sequence of UTF-16 code units. String literals of the source
  are written \<open>js ''...''\<close>.
\<close>

type_synonym code_unit = "16 word"
type_synonym jsstring = "code_unit list"

definition js :: "string \<Rightarrow> jsstring" where
  "js s = map of_char s"

definition PLUS :: code_unit where
  "PLUS = of_char CHR ''+''"

definition AT :: code_unit where
  "AT = of_char CHR ''@''"

text \<open>
  \<open>String.prototype.trim\<close> removes the ECMAScript WhiteSpace and LineTerminator code
  points from both ends; all of them are single code units.
\<close>

definition isWhiteSpace :: "code_unit \<Rightarrow> bool" where
  "isWhiteSpace c \<longleftrightarrow>
     c \<in> set [0x09, 0x0A, 0x0B, 0x0C, 0x0D, 0x20, 0xA0, 0x1680, 0x2028, 0x2029,
                0x202F, 0x205F, 0x3000, 0xFEFF]
     \<or> (0x2000 \<le> c \<and> c \<le> 0x200A)"

definition trim :: "jsstring \<Rightarrow> jsstring" where
  "trim s = rev (dropWhile isWhiteSpace (rev (dropWhile isWhiteSpace s)))"

definition startsWith :: "jsstring \<Rightarrow> jsstring \<Rightarrow> bool" where
  "startsWith s p \<longleftrightarrow> take (length p) s = p"

text \<open>\<open>s.split(sep)[0]\<close> for a one-unit separator: the part before its first occurrence.\<close>

definition split_first :: "code_unit \<Rightarrow> jsstring \<Rightarrow> jsstring" where
  "split_first sep s = takeWhile (\<lambda>c. c \<noteq> sep) s"

text \<open>\<open>s.replace(/^\+/, '')\<close>: one leading plus sign is removed.\<close>

definition replace_leading_plus :: "jsstring \<Rightarrow> jsstring" where
  "replace_leading_plus s = (if startsWith s (js ''+'') then drop 1 s else s)"

section \<open>Phone numbers and WhatsApp ids\<close>

definition normalizePhone :: "jsstring \<Rightarrow> jsstring" where
  "normalizePhone phone =
     (let cleaned = trim (split_first AT phone)
      in if startsWith cleaned (js ''+'') then cleaned else js ''+'' @ cleaned)"

definition extractPhoneFromWhatsAppId :: "jsstring \<Rightarrow> jsstring" where
  "extractPhoneFromWhatsAppId whatsappId = split_first AT whatsappId"

definition e164ToWhatsAppId :: "jsstring \<Rightarrow> jsstring" where
  "e164ToWhatsAppId e164Phone =
     (let cleaned = replace_leading_plus (trim e164Phone)
      in cleaned @ js ''@c.us'')"

text \<open>A string is trimmed when it is empty or neither of its ends is white space.\<close>

definition trimmed :: "jsstring \<Rightarrow> bool" where
  "trimmed s \<longleftrightarrow> s = [] \<or> (\<not> isWhiteSpace (hd s) \<and> \<not> isWhiteSpace (last s))"

section \<open>The job store\<close>

text \<open>
  The rows of the tables \<open>outbox_jobs\<close> and \<open>messages\<close>, with the columns the worker reads
  and writes. \<open>attempts\<close>, \<open>to_phone_e164\<close> and \<open>message_id\<close> may be null. The job statuses
  are the four literals of the source. A table is the list of its rows in the store's
  natural order; \<open>job_id\<close> is the primary key. Ids are numbers. \<open>attempts\<close> is an integer
  of magnitude below \<open>2^53\<close>, where the numbers of JavaScript add without rounding.
\<close>

datatype job_status = Queued | Processing | Sent | Failed

record job =
  job_id :: nat
  to_phone_e164 :: "jsstring option"
  body :: jsstring
  status :: job_status
  attempts :: "int option"
  last_error :: "jsstring option"
  created_at :: int
  message_id :: "nat option"

record message =
  msg_id :: nat
  msg_status :: jsstring

record store =
  outbox_jobs :: "job list"
  messages :: "message list"

text \<open>\<open>v || d\<close> on a nullable number: null and zero are falsy.\<close>

definition or_default :: "int option \<Rightarrow> int \<Rightarrow> int" where
  "or_default v d = (case v of None \<Rightarrow> d | Some a \<Rightarrow> if a = 0 then d else a)"

text \<open>
  \<open>select('*').eq('status', 'queued').order('created_at', {ascending: true}).limit(1)\<close>:
  the first row, in the store's order, among the queued rows created earliest.
\<close>

definition select_oldest_queued :: "job list \<Rightarrow> job option" where
  "select_oldest_queued rows =
     (case filter (\<lambda>r. status r = Queued) rows of
        [] \<Rightarrow> None
      | q # qs \<Rightarrow> Some (arg_min_list created_at (q # qs)))"

text \<open>
  The claim:
  \<open>update({status: 'processing', attempts: currentAttempts}).eq('id', job.id)
  .eq('status', 'queued').select().single()\<close>, where \<open>job\<close> is the row as the query
  returned it. The update is one atomic statement of the store; \<open>single()\<close> answers with
  the updated row when exactly one row matched, and with an error and no change otherwise.
\<close>

definition currentAttempts :: "job \<Rightarrow> int" where
  "currentAttempts job = or_default (attempts job) 0 + 1"

definition claim_update :: "job \<Rightarrow> store \<Rightarrow> store \<times> job option" where
  "claim_update job s =
     (let hit = (\<lambda>r. job_id r = job_id job \<and> status r = Queued);
          claimed = (\<lambda>r. r\<lparr>status := Processing, attempts := Some (currentAttempts job)\<rparr>)
      in case filter hit (outbox_jobs s) of
           [r] \<Rightarrow>
             (s\<lparr>outbox_jobs := map (\<lambda>r. if hit r then claimed r else r) (outbox_jobs s)\<rparr>,
              Some (claimed r))
         | _ \<Rightarrow> (s, None))"

text \<open>\<open>update(values).eq('id', i)\<close> on either table.\<close>

definition update_job :: "nat \<Rightarrow> (job \<Rightarrow> job) \<Rightarrow> store \<Rightarrow> store" where
  "update_job i f s =
     s\<lparr>outbox_jobs := map (\<lambda>r. if job_id r = i then f r else r) (outbox_jobs s)\<rparr>"

definition update_message :: "nat \<Rightarrow> jsstring \<Rightarrow> store \<Rightarrow> store" where
  "update_message i v s =
     s\<lparr>messages := map (\<lambda>m. if msg_id m = i then m\<lparr>msg_status := v\<rparr> else m) (messages s)\<rparr>"

text \<open>The row with a given id, and the claims of several invocations, one after the other.\<close>

definition job_by_id :: "store \<Rightarrow> nat \<Rightarrow> job option" where
  "job_by_id s i = find (\<lambda>r. job_id r = i) (outbox_jobs s)"


section \<open>The outbound dispatcher\<close>

text \<open>The failure path of \<open>processOutboundJob\<close>, computed from the claimed row.\<close>

definition newAttempts :: "job \<Rightarrow> int" where
  "newAttempts updatedJob = or_default (attempts updatedJob) 1"

definition isMaxAttemptsReached :: "int \<Rightarrow> job \<Rightarrow> bool" where
  "isMaxAttemptsReached MAX_ATTEMPTS updatedJob \<longleftrightarrow> newAttempts updatedJob \<ge> MAX_ATTEMPTS"

definition newStatus :: "int \<Rightarrow> job \<Rightarrow> job_status" where
  "newStatus MAX_ATTEMPTS updatedJob =
     (if isMaxAttemptsReached MAX_ATTEMPTS updatedJob then Failed else Queued)"

text \<open>
  \<open>processOutboundJob\<close> is asynchronous: it runs until it awaits the store or the
  WhatsApp client, and is resumed with the answer. A phase is the point where an
  invocation is suspended, with the local variables it holds there. The answers that the
  store does not determine are the environment of a resumption: whether the query fails,
  and what \<open>sendText\<close> answers.

  \<open>sendText\<close> resolves, or it rejects with a value, which the inner \<open>catch\<close> receives as
  \<open>sendError\<close>. Of a thrown object the model keeps the property \<open>message\<close>: a string,
  null, or undefined when the object has none. A thrown null or undefined is an outcome
  of its own: reading \<open>sendError.message\<close> then throws in the inner \<open>catch\<close>.
\<close>

datatype message_property = No_message | Null_message | Message jsstring

datatype send_outcome = Resolved | Rejected message_property | Rejected_nullish

text \<open>
  \<open>last_error: sendError.message\<close> in the values of an update: an undefined value is left
  out of the request and the column keeps what it holds, null sets it to null.
\<close>

definition write_last_error :: "message_property \<Rightarrow> jsstring option \<Rightarrow> jsstring option" where
  "write_last_error m old =
     (case m of No_message \<Rightarrow> old | Null_message \<Rightarrow> None | Message t \<Rightarrow> Some t)"

text \<open>
  \<open>if (updatedJob.message_id)\<close>: the linked message that is updated, none when the id is
  null or the falsy number 0.
\<close>

definition linked_message :: "job \<Rightarrow> nat option" where
  "linked_message updatedJob =
     (case message_id updatedJob of
        None \<Rightarrow> None
      | Some m \<Rightarrow> if m = 0 then None else Some m)"

datatype phase =
    Await_query
  | Await_claim job
  | Await_send job jsstring
  | Await_job_sent job
  | Await_message_sent job
  | Await_job_failed job message_property
  | Await_message_failed job

record env =
  query_error :: bool
  send_result :: send_outcome

text \<open>
  One resumption: the awaited operation takes effect on the store, and the invocation
  runs on to its next await (\<open>Some\<close> phase) or to its end (\<open>None\<close>). \<open>client\<close> tells whether
  the client handle is set. A null \<open>to_phone_e164\<close> makes \<open>normalizePhone\<close> throw a
  TypeError, which the outer \<open>catch\<close> logs, and so does a thrown null or undefined in
  the inner \<open>catch\<close>. The results of the last four updates are discarded by the source.
\<close>

fun resume :: "int \<Rightarrow> bool \<Rightarrow> env \<Rightarrow> phase \<Rightarrow> store \<Rightarrow> phase option \<times> store" where
  "resume MAX_ATTEMPTS client e Await_query s =
     (if query_error e then (None, s)
      else case select_oldest_queued (outbox_jobs s) of
             None \<Rightarrow> (None, s)
           | Some job \<Rightarrow> (Some (Await_claim job), s))"
| "resume MAX_ATTEMPTS client e (Await_claim job) s =
     (case claim_update job s of
        (s', None) \<Rightarrow> (None, s')
      | (s', Some updatedJob) \<Rightarrow>
          (case to_phone_e164 updatedJob of
             None \<Rightarrow> (None, s')
           | Some phone \<Rightarrow>
               (let normalizedPhone = normalizePhone phone;
                    whatsappId = e164ToWhatsAppId normalizedPhone
                in if \<not> client
                   then (Some (Await_job_failed updatedJob
                                 (Message (js ''WhatsApp client not initialized''))), s')
                   else (Some (Await_send updatedJob whatsappId), s'))))"
| "resume MAX_ATTEMPTS client e (Await_send updatedJob whatsappId) s =
     (case send_result e of
        Resolved \<Rightarrow> (Some (Await_job_sent updatedJob), s)
      | Rejected msg \<Rightarrow> (Some (Await_job_failed updatedJob msg), s)
      | Rejected_nullish \<Rightarrow> (None, s))"
| "resume MAX_ATTEMPTS client e (Await_job_sent updatedJob) s =
     (let s' = update_job (job_id updatedJob) (\<lambda>r. r\<lparr>status := Sent\<rparr>) s
      in case linked_message updatedJob of
           None \<Rightarrow> (None, s')
         | Some m \<Rightarrow> (Some (Await_message_sent updatedJob), s'))"
| "resume MAX_ATTEMPTS client e (Await_message_sent updatedJob) s =
     (case linked_message updatedJob of
        None \<Rightarrow> (None, s)
      | Some m \<Rightarrow> (None, update_message m (js ''sent'') s))"
| "resume MAX_ATTEMPTS client e (Await_job_failed updatedJob msg) s =
     (let s' = update_job (job_id updatedJob)
                 (\<lambda>r. r\<lparr>status := newStatus MAX_ATTEMPTS updatedJob,
                        last_error := write_last_error msg (last_error r)\<rparr>) s
      in if isMaxAttemptsReached MAX_ATTEMPTS updatedJob \<and> linked_message updatedJob \<noteq> None
         then (Some (Await_message_failed updatedJob), s')
         else (None, s'))"
| "resume MAX_ATTEMPTS client e (Await_message_failed updatedJob) s =
     (case linked_message updatedJob of
        None \<Rightarrow> (None, s)
      | Some m \<Rightarrow> (None, update_message m (js ''failed'') s))"

text \<open>
  The \<open>message\<close> of the object that the failure path of an invocation handles: the guard
  on the client handle throws an \<open>Error\<close> before \<open>sendText\<close> is called; \<open>None\<close> when the send
  succeeds or throws null or undefined.
\<close>

definition sendError_message :: "bool \<Rightarrow> env \<Rightarrow> message_property option" where
  "sendError_message client e =
     (if \<not> client then Some (Message (js ''WhatsApp client not initialized''))
      else case send_result e of
             Resolved \<Rightarrow> None
           | Rejected msg \<Rightarrow> Some msg
           | Rejected_nullish \<Rightarrow> None)"

text \<open>The number of resumptions an invocation in a phase can still need.\<close>

fun rank :: "phase \<Rightarrow> nat" where
  "rank Await_query = 5"
| "rank (Await_claim _) = 4"
| "rank (Await_send _ _) = 3"
| "rank (Await_job_sent _) = 2"
| "rank (Await_job_failed _ _) = 2"
| "rank (Await_message_sent _) = 1"
| "rank (Await_message_failed _) = 1"

text \<open>An invocation that no other store operation interleaves with: resumed to its end.\<close>

function drive :: "int \<Rightarrow> bool \<Rightarrow> env \<Rightarrow> phase \<Rightarrow> store \<Rightarrow> store" where
  "drive MAX_ATTEMPTS client e ph s =
     (case resume MAX_ATTEMPTS client e ph s of
        (None, s') \<Rightarrow> s'
      | (Some ph', s') \<Rightarrow> drive MAX_ATTEMPTS client e ph' s')"
  by pat_completeness auto
termination
  apply (relation "measure (\<lambda>(MAX_ATTEMPTS, client, e, ph, s). rank ph)")
   apply simp
  subgoal for MAX_ATTEMPTS client e ph
    by (cases ph) (auto simp: Let_def split: if_splits option.splits prod.splits send_outcome.splits)
  done

declare drive.simps [simp del]

text \<open>
  The state of one worker process: the reentrancy flag, whether the client handle is
  set, and the invocations of \<open>processOutboundJob\<close> that are suspended at an await.
\<close>

record proc =
  isProcessingJob :: bool
  client :: bool
  running :: "phase list"

text \<open>
  A call of \<open>processOutboundJob\<close> up to its first await: it returns at once when the flag
  is set, and otherwise sets the flag and issues the query.
\<close>

definition processOutboundJob_call :: "proc \<Rightarrow> proc" where
  "processOutboundJob_call p =
     (if isProcessingJob p then p
      else p\<lparr>isProcessingJob := True, running := running p @ [Await_query]\<rparr>)"

text \<open>
  The \<open>k\<close>-th suspended invocation is resumed. When it ends, by a return or through the
  outer \<open>catch\<close>, the \<open>finally\<close> block clears the flag.
\<close>

definition processOutboundJob_resume ::
  "int \<Rightarrow> env \<Rightarrow> nat \<Rightarrow> proc \<times> store \<Rightarrow> proc \<times> store" where
  "processOutboundJob_resume MAX_ATTEMPTS e k ps =
     (case ps of (p, s) \<Rightarrow>
        if k < length (running p)
        then (case resume MAX_ATTEMPTS (client p) e (running p ! k) s of
                (None, s') \<Rightarrow>
                  (p\<lparr>isProcessingJob := False,
                     running := take k (running p) @ drop (Suc k) (running p)\<rparr>, s')
              | (Some ph', s') \<Rightarrow> (p\<lparr>running := (running p)[k := ph']\<rparr>, s'))
        else (p, s))"

text \<open>
  A whole call that nothing interleaves with, as one function of the process and the
  store.
\<close>

definition processOutboundJob :: "int \<Rightarrow> env \<Rightarrow> proc \<times> store \<Rightarrow> proc \<times> store" where
  "processOutboundJob MAX_ATTEMPTS e ps =
     (case ps of (p, s) \<Rightarrow>
        if isProcessingJob p then (p, s)
        else (p\<lparr>isProcessingJob := False\<rparr>, drive MAX_ATTEMPTS (client p) e Await_query s))"

text \<open>
  Several worker processes share one store. An event is the timer of process \<open>i\<close> firing
  (\<open>setInterval\<close> calls \<open>processOutboundJob\<close>), or the \<open>k\<close>-th suspended invocation of
  process \<open>i\<close> being resumed with the answers \<open>e\<close>.
\<close>

record system =
  procs :: "proc list"
  db :: store

datatype event = Timer nat | Resume nat nat env

fun step :: "int \<Rightarrow> event \<Rightarrow> system \<Rightarrow> system" where
  "step MAX_ATTEMPTS (Timer i) sys =
     (if i < length (procs sys)
      then sys\<lparr>procs := (procs sys)[i := processOutboundJob_call (procs sys ! i)]\<rparr>
      else sys)"
| "step MAX_ATTEMPTS (Resume i k e) sys =
     (if i < length (procs sys)
      then (case processOutboundJob_resume MAX_ATTEMPTS e k (procs sys ! i, db sys) of
              (p', s') \<Rightarrow> sys\<lparr>procs := (procs sys)[i := p'], db := s'\<rparr>)
      else sys)"

definition run :: "int \<Rightarrow> event list \<Rightarrow> system \<Rightarrow> system" where
  "run MAX_ATTEMPTS events sys = fold (step MAX_ATTEMPTS) events sys"

section \<open>A small store\<close>

text \<open>
  One queued job for \<open>+15551234567\<close> with no attempt so far, linked to message 7, and an
  older job that was sent already.
\<close>

definition example_job :: job where
  "example_job =
     \<lparr>job_id = 1, to_phone_e164 = Some (js ''+15551234567''), body = js ''hi'',
      status = Queued, attempts = Some 0, last_error = None, created_at = 10,
      message_id = Some 7\<rparr>"

definition sent_job :: job where
  "sent_job =
     \<lparr>job_id = 2, to_phone_e164 = Some (js ''+15557654321''), body = js ''hello'',
      status = Sent, attempts = Some 1, last_error = None, created_at = 5,
      message_id = None\<rparr>"

definition example_store :: store where
  "example_store =
     \<lparr>outbox_jobs = [sent_job, example_job],
      messages = [\<lparr>msg_id = 7, msg_status = js ''queued''\<rparr>]\<rparr>"

definition idle :: "bool \<Rightarrow> proc" where
  "idle c = \<lparr>isProcessingJob = False, client = c, running = []\<rparr>"

definition send_ok :: env where
  "send_ok = \<lparr>query_error = False, send_result = Resolved\<rparr>"

definition query_fails :: env where
  "query_fails = \<lparr>query_error = True, send_result = Resolved\<rparr>"

definition send_fails :: env where
  "send_fails = \<lparr>query_error = False, send_result = Rejected (Message (js ''timeout''))\<rparr>"

text \<open>A send that rejects with an object that has no \<open>message\<close>.\<close>

definition send_fails_without_message :: env where
  "send_fails_without_message = \<lparr>query_error = False, send_result = Rejected No_message\<rparr>"

text \<open>
  Two workers on the small store. Worker 1 queries and is then held up before its claim
  reaches the store; meanwhile worker 0 runs two whole calls whose sends fail, each of
  which claims the job and puts it back in the queue.
\<close>

definition two_workers :: system where
  "two_workers = \<lparr>procs = [idle True, idle True], db = example_store\<rparr>"

definition failing_call :: "nat \<Rightarrow> event list" where
  "failing_call i =
     [Timer i, Resume i 0 send_fails, Resume i 0 send_fails, Resume i 0 send_fails,
      Resume i 0 send_fails]"

definition stale_claim_events :: "event list" where
  "stale_claim_events = [Timer 1, Resume 1 0 send_ok] @ failing_call 0 @ failing_call 0"

section \<open>Invariants of the dispatcher\<close>

text \<open>
  A process is single-flight when at most one invocation of \<open>processOutboundJob\<close> is
  suspended and the flag is set exactly while there is one. \<open>sending\<close> tells whether an
  invocation awaits \<open>sendText\<close>.
\<close>

definition single_flight :: "proc \<Rightarrow> bool" where
  "single_flight p \<longleftrightarrow> length (running p) \<le> 1 \<and> (isProcessingJob p \<longleftrightarrow> running p \<noteq> [])"

fun sending :: "phase \<Rightarrow> bool" where
  "sending (Await_send _ _) = True"
| "sending _ = False"

definition all_idle :: "system \<Rightarrow> bool" where
  "all_idle sys \<longleftrightarrow> list_all (\<lambda>p. \<not> isProcessingJob p \<and> running p = []) (procs sys)"

text \<open>
  The job whose row an invocation has claimed and has still to write: from the claim to
  the update that records the outcome of the send.
\<close>

fun owns :: "phase \<Rightarrow> nat option" where
  "owns (Await_send updatedJob _) = Some (job_id updatedJob)"
| "owns (Await_job_sent updatedJob) = Some (job_id updatedJob)"
| "owns (Await_job_failed updatedJob _) = Some (job_id updatedJob)"
| "owns _ = None"

definition next_owner :: "phase option \<Rightarrow> nat option" where
  "next_owner po = (case po of None \<Rightarrow> None | Some ph \<Rightarrow> owns ph)"

definition owner :: "proc \<Rightarrow> nat option" where
  "owner p = (case running p of [] \<Rightarrow> None | ph # _ \<Rightarrow> owns ph)"

text \<open>
  The invariant of the workers on a shared store: ids are unique, every process is
  single-flight, a job that an invocation owns is in status processing, and no job has
  two owners.
\<close>

definition dispatch_inv :: "system \<Rightarrow> bool" where
  "dispatch_inv sys \<longleftrightarrow>
     distinct (map job_id (outbox_jobs (db sys)))
     \<and> list_all single_flight (procs sys)
     \<and> (\<forall>i < length (procs sys). \<forall>x. owner (procs sys ! i) = Some x \<longrightarrow>
           (\<exists>r. job_by_id (db sys) x = Some r \<and> status r = Processing)
           \<and> (\<forall>i' < length (procs sys). owner (procs sys ! i') = Some x \<longrightarrow> i' = i))"

definition terminal :: "job \<Rightarrow> bool" where
  "terminal r \<longleftrightarrow> status r = Sent \<or> status r = Failed"

text \<open>A store operation touches at most the job row \<open>x\<close>, and no id.\<close>

definition touches :: "nat \<Rightarrow> store \<Rightarrow> store \<Rightarrow> bool" where
  "touches x s s' \<longleftrightarrow>
     map job_id (outbox_jobs s') = map job_id (outbox_jobs s)
     \<and> (\<forall>y. y \<noteq> x \<longrightarrow> job_by_id s' y = job_by_id s y)"

section \<open>The session profile directory\<close>

text \<open>
  A directory is the list of its entries, each a name with a regular file (its bytes) or
  a directory. Symbolic links and failing file operations are not modelled.
\<close>

datatype fs_node = File "8 word list" | Dir "(jsstring \<times> fs_node) list"

type_synonym fs_entries = "(jsstring \<times> fs_node) list"

text \<open>\<open>s.includes(p)\<close>.\<close>

fun js_includes :: "jsstring \<Rightarrow> jsstring \<Rightarrow> bool" where
  "js_includes [] p \<longleftrightarrow> p = []"
| "js_includes (c # s) p \<longleftrightarrow> startsWith (c # s) p \<or> js_includes s p"

definition lockFiles :: "jsstring list" where
  "lockFiles = [js ''SingletonLock'', js ''SingletonCookie'', js ''SingletonSocket'', js ''Lockfile'']"

text \<open>
  The test of \<open>cleanLockFilesInDir\<close> on the name of a file. \<open>String.prototype.toLowerCase\<close>
  is a parameter: what is proved holds for every function in its place.
\<close>

definition isLockFile :: "(jsstring \<Rightarrow> jsstring) \<Rightarrow> jsstring \<Rightarrow> bool" where
  "isLockFile toLowerCase entry \<longleftrightarrow>
     entry \<in> set lockFiles
     \<or> startsWith entry (js ''Singleton'')
     \<or> entry = js ''Lockfile''
     \<or> startsWith (toLowerCase entry) (js ''lock'')"

text \<open>
  \<open>cleanLockFilesInDir(dir, depth)\<close> on the entries of an existing directory, and the
  \<open>forEach\<close> over the entries: a directory is cleaned one level deeper and kept, a file
  with a lock name is unlinked.
\<close>

fun cleanLockFilesInDir :: "(jsstring \<Rightarrow> jsstring) \<Rightarrow> nat \<Rightarrow> fs_entries \<Rightarrow> fs_entries"
  and cleanEntries :: "(jsstring \<Rightarrow> jsstring) \<Rightarrow> nat \<Rightarrow> fs_entries \<Rightarrow> fs_entries" where
  "cleanLockFilesInDir toLowerCase depth entries =
     (if depth > 3 then entries else cleanEntries toLowerCase depth entries)"
| "cleanEntries toLowerCase depth [] = []"
| "cleanEntries toLowerCase depth ((entry, Dir sub) # rest) =
     (entry, Dir (cleanLockFilesInDir toLowerCase (depth + 1) sub))
       # cleanEntries toLowerCase depth rest"
| "cleanEntries toLowerCase depth ((entry, File bytes) # rest) =
     (if isLockFile toLowerCase entry then cleanEntries toLowerCase depth rest
      else (entry, File bytes) # cleanEntries toLowerCase depth rest)"

text \<open>
  \<open>cleanupChromiumLockFiles(sessionProfileDir)\<close>, on what the path holds: nothing
  (\<open>None\<close>), a file, for which \<open>readdirSync\<close> throws and the error is ignored, or a
  directory.
\<close>

fun cleanupChromiumLockFiles :: "(jsstring \<Rightarrow> jsstring) \<Rightarrow> fs_node option \<Rightarrow> fs_node option" where
  "cleanupChromiumLockFiles toLowerCase None = None"
| "cleanupChromiumLockFiles toLowerCase (Some (File bytes)) = Some (File bytes)"
| "cleanupChromiumLockFiles toLowerCase (Some (Dir entries)) =
     Some (Dir (cleanLockFilesInDir toLowerCase 0 entries))"

text \<open>The two tests of \<open>startWhatsAppClient\<close> on the name of a top-level entry.\<close>

definition sessionTokenPatterns :: "jsstring list" where
  "sessionTokenPatterns = [js ''.data'', js ''.wppconnect'', js ''wppconnect.json'']"

definition browserProfileDirs :: "jsstring list" where
  "browserProfileDirs =
     [js ''Default'', js ''Profile'', js ''System Profile'', js ''Crash Reports'', js ''Crashpad'']"

definition isSessionToken :: "jsstring \<Rightarrow> bool" where
  "isSessionToken file \<longleftrightarrow>
     list_ex (\<lambda>pattern. js_includes file pattern \<or> startsWith file (js ''.wppconnect''))
       sessionTokenPatterns"

definition isBrowserProfile :: "jsstring \<Rightarrow> bool" where
  "isBrowserProfile file \<longleftrightarrow>
     file \<in> set browserProfileDirs
     \<or> startsWith file (js ''Singleton'')
     \<or> file = js ''Lockfile''
     \<or> startsWith file (js ''lock'')"

text \<open>
  What \<open>startWhatsAppClient\<close> does to the profile directory before it creates the client:
  if the directory exists, the lock files are cleaned and every top-level entry with a
  browser profile name and no session token name is removed, a directory with all it
  holds; otherwise the directory is made. Then the lock files are cleaned once more.
\<close>

definition removeBrowserProfile :: "fs_entries \<Rightarrow> fs_entries" where
  "removeBrowserProfile files =
     filter (\<lambda>(file, node). \<not> (isBrowserProfile file \<and> \<not> isSessionToken file)) files"

fun prepareProfile :: "(jsstring \<Rightarrow> jsstring) \<Rightarrow> fs_node option \<Rightarrow> fs_node option" where
  "prepareProfile toLowerCase None = cleanupChromiumLockFiles toLowerCase (Some (Dir []))"
| "prepareProfile toLowerCase (Some (File bytes)) =
     cleanupChromiumLockFiles toLowerCase
       (cleanupChromiumLockFiles toLowerCase
          (cleanupChromiumLockFiles toLowerCase (Some (File bytes))))"
| "prepareProfile toLowerCase (Some (Dir entries)) =
     cleanupChromiumLockFiles toLowerCase
       (Some (Dir (removeBrowserProfile (cleanLockFilesInDir toLowerCase 0 entries))))"

text \<open>Lower case of the letters A to Z, which is \<open>toLowerCase\<close> on names of ASCII units.\<close>

definition asciiLowerCase :: "jsstring \<Rightarrow> jsstring" where
  "asciiLowerCase s = map (\<lambda>c. if 0x41 \<le> c \<and> c \<le> 0x5A then c + 0x20 else c) s"

text \<open>
  A profile directory with a lock file, a session token file, a file whose name is both
  a session token name and a lock name, and the browser's \<open>Default\<close> directory holding a
  session token file and the cookies of the session.
\<close>

definition example_profile :: fs_entries where
  "example_profile =
     [(js ''SingletonLock'', File [1, 2]),
      (js ''wppconnect.json'', File [3, 4, 5]),
      (js ''lock.data'', File [6]),
      (js ''Default'', Dir [(js ''.data'', File [7, 8]), (js ''Cookies'', File [9])])]"

section \<open>Starting the WhatsApp client\<close>

text \<open>
  The body of the \<open>try\<close> block of one attempt prepares the profile directory, waits a
  second and calls \<open>create\<close>; it ends with the client started and the message handler
  registered, or it throws. A thrown error is given by its message, the value of
  \<open>error.message || String(error)\<close>. The events record what the loop does between the
  attempts: a call of \<open>cleanupChromiumLockFiles\<close>, a wait in milliseconds.
\<close>

datatype attempt_outcome = Started | Threw jsstring

datatype acquire_event = Try nat | Cleanup | Sleep nat

datatype acquire_result = Ready | Fatal jsstring

definition maxRetries :: nat where
  "maxRetries = 3"

definition isSingletonLockError :: "jsstring \<Rightarrow> bool" where
  "isSingletonLockError errorMessage \<longleftrightarrow>
     js_includes errorMessage (js ''profile appears to be in use'')
     \<or> js_includes errorMessage (js ''Code: 21'')"

text \<open>
  The \<open>for\<close> loop of \<open>startWhatsAppClient\<close> from a given attempt on, with \<open>lastError\<close> and
  the events so far. In the \<open>catch\<close> block a singleton lock error below the last attempt
  cleans, waits and continues; every other error falls through to the test
  \<open>attempt === maxRetries\<close>, which alone throws; otherwise the loop goes on.
\<close>

function startWhatsAppClient_loop ::
  "(nat \<Rightarrow> attempt_outcome) \<Rightarrow> nat \<Rightarrow> jsstring option \<Rightarrow> acquire_event list
     \<Rightarrow> acquire_result \<times> acquire_event list" where
  "startWhatsAppClient_loop try_body attempt lastError events =
     (if attempt \<le> maxRetries then
        (case try_body attempt of
           Started \<Rightarrow> (Ready, events @ [Try attempt])
         | Threw errorMessage \<Rightarrow>
             (if isSingletonLockError errorMessage then
                (if attempt < maxRetries then
                   startWhatsAppClient_loop try_body (attempt + 1) (Some errorMessage)
                     (events @ [Try attempt, Cleanup, Sleep 300, Cleanup, Sleep 300, Cleanup,
                                Sleep (max 1000 (500 * attempt))])
                 else if attempt = maxRetries then
                   (Fatal errorMessage,
                    events @ [Try attempt, Cleanup, Sleep 300, Cleanup, Sleep 300, Cleanup])
                 else
                   startWhatsAppClient_loop try_body (attempt + 1) (Some errorMessage)
                     (events @ [Try attempt, Cleanup, Sleep 300, Cleanup, Sleep 300, Cleanup]))
              else if attempt = maxRetries then (Fatal errorMessage, events @ [Try attempt])
              else startWhatsAppClient_loop try_body (attempt + 1) (Some errorMessage)
                     (events @ [Try attempt])))
      else
        (case lastError of
           Some errorMessage \<Rightarrow> (Fatal errorMessage, events)
         | None \<Rightarrow> (Fatal (js ''Failed to start WhatsApp client''), events)))"
  by pat_completeness auto
termination
  by (relation "measure (\<lambda>(try_body, attempt, lastError, events). Suc maxRetries - attempt)") auto

declare startWhatsAppClient_loop.simps [simp del]

definition startWhatsAppClient ::
  "(nat \<Rightarrow> attempt_outcome) \<Rightarrow> acquire_result \<times> acquire_event list" where
  "startWhatsAppClient try_body = startWhatsAppClient_loop try_body 1 None []"

text \<open>
  The browser fails to launch at the first attempt, with an error that is no singleton
  lock error, and starts at the second; and the profile is reported in use every time.
\<close>

definition launch_fails_once :: "nat \<Rightarrow> attempt_outcome" where
  "launch_fails_once attempt =
     (if attempt = 1 then Threw (js ''Failed to launch the browser process'') else Started)"

definition always_in_use :: "nat \<Rightarrow> attempt_outcome" where
  "always_in_use attempt = Threw (js ''The profile appears to be in use by another process'')"

section \<open>Properties of the string functions\<close>

text \<open>A string is trimmed when neither end is white space.\<close>

lemma dropWhile_keeps: "xs \<noteq> [] \<Longrightarrow> \<not> P (hd xs) \<Longrightarrow> dropWhile P xs = xs"
  by (cases xs) auto

lemma last_dropWhile_nonempty: "dropWhile P xs \<noteq> [] \<Longrightarrow> last (dropWhile P xs) = last xs"
  by (induction xs) (auto split: if_splits)

lemma trim_trimmed: "trimmed s \<Longrightarrow> trim s = s"
proof (cases "s = []")
  case True
  then show ?thesis by (simp add: trim_def)
next
  case False
  assume "trimmed s"
  with False have h: "\<not> isWhiteSpace (hd s)" and l: "\<not> isWhiteSpace (last s)"
    by (auto simp: trimmed_def)
  from False h have "dropWhile isWhiteSpace s = s" by (rule dropWhile_keeps)
  moreover from False l have "dropWhile isWhiteSpace (rev s) = rev s"
    by (intro dropWhile_keeps) (auto simp: hd_rev)
  ultimately show ?thesis by (simp add: trim_def)
qed

lemma trimmed_trim: "trimmed (trim s)"
proof -
  define t where "t = dropWhile isWhiteSpace s"
  define u where "u = dropWhile isWhiteSpace (rev t)"
  have tr: "trim s = rev u" by (simp add: trim_def t_def u_def)
  show ?thesis
  proof (cases "u = []")
    case True
    then show ?thesis by (simp add: tr trimmed_def)
  next
    case False
    then have "\<not> isWhiteSpace (hd u)" unfolding u_def by (rule hd_dropWhile)
    moreover from False have "last u = last (rev t)"
      unfolding u_def by (rule last_dropWhile_nonempty)
    moreover from False have "t \<noteq> []" by (auto simp: u_def)
    then have "\<not> isWhiteSpace (hd t)" unfolding t_def by (rule hd_dropWhile)
    ultimately show ?thesis using False \<open>t \<noteq> []\<close>
      by (simp add: tr trimmed_def hd_rev last_rev)
  qed
qed

lemma plus_not_ws: "\<not> isWhiteSpace PLUS"
  by (simp add: isWhiteSpace_def PLUS_def)

lemma plus_not_at: "PLUS \<noteq> AT"
  by (simp add: PLUS_def AT_def)

lemma js_plus: "js ''+'' = [PLUS]"
  by (simp add: js_def PLUS_def)

lemma startsWith_plus: "startsWith s [PLUS] \<longleftrightarrow> (\<exists>r. s = PLUS # r)"
  by (cases s) (auto simp: startsWith_def)

lemma trimmed_plus_Cons: "trimmed c \<Longrightarrow> trimmed (PLUS # c)"
  using plus_not_ws by (auto simp: trimmed_def)

lemma normalizePhone_trimmed: "trimmed (normalizePhone x)"
  using trimmed_trim [of "split_first AT x"]
  by (auto simp: normalizePhone_def Let_def js_plus intro: trimmed_plus_Cons)

lemma normalizePhone_startsWith: "startsWith (normalizePhone x) (js ''+'')"
  by (auto simp: normalizePhone_def Let_def startsWith_plus js_plus)

lemma set_trim: "set (trim s) \<subseteq> set s"
proof -
  have "set (dropWhile P xs) \<subseteq> set xs" for P and xs :: jsstring
    by (auto dest: set_dropWhileD)
  from this [of isWhiteSpace "rev (dropWhile isWhiteSpace s)"] this [of isWhiteSpace s]
  show ?thesis by (auto simp: trim_def)
qed

lemma sep_notin_split_first: "sep \<notin> set (split_first sep x)"
  by (auto simp: split_first_def dest: set_takeWhileD)

lemma at_notin_normalizePhone: "AT \<notin> set (normalizePhone x)"
  using set_trim [of "split_first AT x"] sep_notin_split_first [of AT x] plus_not_at
  by (auto simp: normalizePhone_def Let_def js_plus)

lemma split_first_id: "sep \<notin> set x \<Longrightarrow> split_first sep x = x"
  by (auto simp: split_first_def)

lemma normalizePhone_fixed: "normalizePhone (normalizePhone x) = normalizePhone x"
proof -
  let ?y = "normalizePhone x"
  have "split_first AT ?y = ?y"
    by (rule split_first_id) (rule at_notin_normalizePhone)
  moreover have "trim ?y = ?y"
    by (rule trim_trimmed) (rule normalizePhone_trimmed)
  ultimately have "normalizePhone ?y = (if startsWith ?y (js ''+'') then ?y else js ''+'' @ ?y)"
    by (simp add: normalizePhone_def [of ?y] Let_def)
  then show ?thesis by (simp add: normalizePhone_startsWith)
qed

lemma e164_after_normalizePhone:
  "e164ToWhatsAppId (normalizePhone x) = e164ToWhatsAppId (split_first AT x)"
proof -
  let ?c = "trim (split_first AT x)"
  have "trim (normalizePhone x) = normalizePhone x"
    by (rule trim_trimmed) (rule normalizePhone_trimmed)
  moreover have "trim ?c = ?c"
    by (rule trim_trimmed) (rule trimmed_trim)
  moreover have "replace_leading_plus (normalizePhone x) = replace_leading_plus ?c"
    by (auto simp: normalizePhone_def Let_def replace_leading_plus_def startsWith_plus js_plus)
  ultimately show ?thesis by (simp add: e164ToWhatsAppId_def Let_def)
qed

lemmas js_eval =
  js_def AT_def PLUS_def trim_def isWhiteSpace_def split_first_def startsWith_def
  replace_leading_plus_def normalizePhone_def e164ToWhatsAppId_def Let_def

text \<open>
  Claim C4, as stated, fails: an input that carries the channel suffix keeps it when it
  is converted directly, so the suffix is appended twice, while the normalized form has
  lost it. \<open>"447900000001@c.us"\<close> converts directly to \<open>"447900000001@c.us@c.us"\<close>.
\<close>

theorem e164_normalize_suffix_counterexample:
  "e164ToWhatsAppId (normalizePhone (js ''447900000001@c.us''))
     \<noteq> e164ToWhatsAppId (js ''447900000001@c.us'')"
  by (simp add: js_eval)

text \<open>
  Claim C4, amended: for every string \<open>x\<close>, converting the normalized form of \<open>x\<close> equals
  converting the part of \<open>x\<close> before its first \<open>@\<close>; so it equals converting \<open>x\<close> itself
  whenever \<open>x\<close> contains no \<open>@\<close>, with or without a leading plus sign. The input
  \<open>"447900000001@c.us"\<close> normalizes to \<open>"+447900000001"\<close>, and its normalized form
  converts to \<open>"447900000001@c.us"\<close>.
\<close>

theorem e164_normalize_roundtrip:
  "e164ToWhatsAppId (normalizePhone x) = e164ToWhatsAppId (split_first AT x)
   \<and> (AT \<notin> set x \<longrightarrow> e164ToWhatsAppId (normalizePhone x) = e164ToWhatsAppId x)
   \<and> normalizePhone (js ''447900000001@c.us'') = js ''+447900000001''
   \<and> e164ToWhatsAppId (normalizePhone (js ''447900000001@c.us'')) = js ''447900000001@c.us''"
proof (intro conjI impI)
  show "e164ToWhatsAppId (normalizePhone x) = e164ToWhatsAppId (split_first AT x)"
    by (rule e164_after_normalizePhone)
next
  assume "AT \<notin> set x"
  then show "e164ToWhatsAppId (normalizePhone x) = e164ToWhatsAppId x"
    by (simp add: e164_after_normalizePhone split_first_id)
next
  show "normalizePhone (js ''447900000001@c.us'') = js ''+447900000001''"
    by (simp add: js_eval)
next
  show "e164ToWhatsAppId (normalizePhone (js ''447900000001@c.us'')) = js ''447900000001@c.us''"
    by (simp add: js_eval)
qed

theorem e164_normalize_roundtrip_witness:
  "AT \<notin> set (js ''+447900000001'')
   \<and> e164ToWhatsAppId (normalizePhone (js ''+447900000001'')) = e164ToWhatsAppId (js ''+447900000001'')
   \<and> e164ToWhatsAppId (js ''+447900000001'') = js ''447900000001@c.us''"
proof -
  have no_at: "AT \<notin> set (js ''+447900000001'')"
    by (simp add: js_def AT_def)
  have "e164ToWhatsAppId (js ''+447900000001'') = js ''447900000001@c.us''"
    by (simp add: js_eval)
  with no_at e164_normalize_roundtrip [of "js ''+447900000001''"] show ?thesis
    by blast
qed

text \<open>
  Claim C10: \<open>normalizePhone\<close> is idempotent, and its result always begins with a plus
  sign and contains no \<open>@\<close>.
\<close>

theorem normalizePhone_idempotent:
  "normalizePhone (normalizePhone x) = normalizePhone x
   \<and> startsWith (normalizePhone x) (js ''+'')
   \<and> AT \<notin> set (normalizePhone x)"
  by (simp add: normalizePhone_fixed normalizePhone_startsWith at_notin_normalizePhone)

section \<open>Properties of the store operations\<close>

lemma filter_by_key_distinct:
  "distinct (map f xs) \<Longrightarrow> filter (\<lambda>x. f x = k \<and> P x) xs =
     (case find (\<lambda>x. f x = k) xs of None \<Rightarrow> [] | Some r \<Rightarrow> if P r then [r] else [])"
proof (induction xs)
  case Nil
  then show ?case by simp
next
  case (Cons a xs)
  show ?case
  proof (cases "f a = k")
    case True
    with Cons.prems have "\<forall>x\<in>set xs. f x \<noteq> k" by (auto simp: image_iff)
    then have "filter (\<lambda>x. f x = k \<and> P x) xs = []" by (auto simp: filter_empty_conv)
    with True show ?thesis by simp
  next
    case False
    with Cons show ?thesis by simp
  qed
qed

lemma claim_update_by_id:
  assumes "distinct (map job_id (outbox_jobs s))"
  shows "claim_update job s =
     (case job_by_id s (job_id job) of
        None \<Rightarrow> (s, None)
      | Some r \<Rightarrow>
          if status r = Queued
          then (update_job (job_id job)
                  (\<lambda>r. r\<lparr>status := Processing, attempts := Some (currentAttempts job)\<rparr>) s,
                Some (r\<lparr>status := Processing, attempts := Some (currentAttempts job)\<rparr>))
          else (s, None))"
proof -
  have m: "map (\<lambda>r. if job_id r = job_id job \<and> status r = Queued then g r else r) (outbox_jobs s)
      = map (\<lambda>r. if job_id r = job_id job then g r else r) (outbox_jobs s)"
    if "job_by_id s (job_id job) = Some r" "status r = Queued" for r g
  proof (rule map_cong [OF refl])
    fix x assume x: "x \<in> set (outbox_jobs s)"
    show "(if job_id x = job_id job \<and> status x = Queued then g x else x)
        = (if job_id x = job_id job then g x else x)"
    proof (cases "job_id x = job_id job")
      case True
      from that(1) have "r \<in> set (outbox_jobs s)" "job_id r = job_id job"
        by (auto simp: job_by_id_def find_Some_iff)
      with x True assms have "x = r" by (metis distinct_map inj_onD)
      with that(2) True show ?thesis by simp
    next
      case False
      then show ?thesis by simp
    qed
  qed
  show ?thesis
    unfolding claim_update_def Let_def filter_by_key_distinct [OF assms] job_by_id_def [symmetric]
    by (auto simp: update_job_def m split: option.splits)
qed

lemma select_oldest_queued_Some:
  assumes "select_oldest_queued rows = Some r"
  shows "r \<in> set rows \<and> status r = Queued"
proof -
  let ?qs = "filter (\<lambda>r. status r = Queued) rows"
  from assms have ne: "?qs \<noteq> []" and r: "r = arg_min_list created_at ?qs"
    by (auto simp: select_oldest_queued_def split: list.splits)
  from ne have "arg_min_list created_at ?qs \<in> set ?qs" by (rule arg_min_list_in)
  with r show ?thesis by simp
qed

lemma find_by_key_distinct:
  "distinct (map f xs) \<Longrightarrow> r \<in> set xs \<Longrightarrow> find (\<lambda>x. f x = f r) xs = Some r"
proof (induction xs)
  case Nil
  then show ?case by simp
next
  case (Cons a xs)
  show ?case
  proof (cases "a = r")
    case True
    then show ?thesis by simp
  next
    case False
    with Cons.prems have "r \<in> set xs" by simp
    with Cons.prems have "f a \<noteq> f r" by (auto simp: image_iff)
    with Cons \<open>r \<in> set xs\<close> show ?thesis by simp
  qed
qed

lemma job_by_id_member:
  "distinct (map job_id (outbox_jobs s)) \<Longrightarrow> r \<in> set (outbox_jobs s) \<Longrightarrow> job_by_id s (job_id r) = Some r"
  unfolding job_by_id_def by (rule find_by_key_distinct)

lemma job_by_id_SomeD: "job_by_id s i = Some r \<Longrightarrow> r \<in> set (outbox_jobs s) \<and> job_id r = i"
  by (auto simp: job_by_id_def find_Some_iff)

lemma map_job_id_update_job:
  "(\<And>r. job_id (f r) = job_id r) \<Longrightarrow>
   map job_id (outbox_jobs (update_job i f s)) = map job_id (outbox_jobs s)"
  by (simp add: update_job_def comp_def)

lemma find_update_by_key:
  "(\<And>r. job_id (f r) = job_id r) \<Longrightarrow>
   find (\<lambda>r. job_id r = k) (map (\<lambda>r. if job_id r = i then f r else r) rows)
     = (if k = i then map_option f (find (\<lambda>r. job_id r = i) rows)
        else find (\<lambda>r. job_id r = k) rows)"
  by (induction rows) auto

lemma job_by_id_update_job:
  "(\<And>r. job_id (f r) = job_id r) \<Longrightarrow>
   job_by_id (update_job i f s) k
     = (if k = i then map_option f (job_by_id s i) else job_by_id s k)"
  by (simp add: job_by_id_def update_job_def find_update_by_key)

lemma job_by_id_update_message [simp]: "job_by_id (update_message m v s) k = job_by_id s k"
  by (simp add: job_by_id_def update_message_def)





lemmas example_eval =
  example_job_def sent_job_def example_store_def idle_def send_ok_def send_fails_def
  send_fails_without_message_def linked_message_def write_last_error_def
  claim_update_def currentAttempts_def or_default_def update_job_def update_message_def
  select_oldest_queued_def newAttempts_def isMaxAttemptsReached_def newStatus_def
  processOutboundJob_call_def processOutboundJob_resume_def processOutboundJob_def run_def


section \<open>A call of the dispatcher that nothing interleaves with\<close>

lemma drive_step:
  "resume MAX_ATTEMPTS c e ph s = (Some ph', s') \<Longrightarrow>
   drive MAX_ATTEMPTS c e ph s = drive MAX_ATTEMPTS c e ph' s'"
  by (subst drive.simps) simp

lemma drive_done:
  "resume MAX_ATTEMPTS c e ph s = (None, s') \<Longrightarrow> drive MAX_ATTEMPTS c e ph s = s'"
  by (subst drive.simps) simp

lemma select_oldest_queued_by_id:
  assumes "distinct (map job_id (outbox_jobs s))"
    and "select_oldest_queued (outbox_jobs s) = Some r"
  shows "job_by_id s (job_id r) = Some r" and "status r = Queued"
  using assms select_oldest_queued_Some [OF assms(2)] by (auto intro: job_by_id_member)

text \<open>An uninterrupted call whose send fails.\<close>

lemma drive_failed_send:
  fixes MAX_ATTEMPTS :: int
  assumes d: "distinct (map job_id (outbox_jobs s))"
    and sel: "select_oldest_queued (outbox_jobs s) = Some r"
    and q: "\<not> query_error e"
    and phone: "to_phone_e164 r = Some phone"
    and err: "sendError_message c e = Some err"
  defines "u \<equiv> r\<lparr>status := Processing, attempts := Some (currentAttempts r)\<rparr>"
  defines "final \<equiv> drive MAX_ATTEMPTS c e Await_query s"
  shows "claim_update r s = (update_job (job_id r) (\<lambda>x. x\<lparr>status := Processing, attempts := Some (currentAttempts r)\<rparr>) s, Some u)"
    and "job_by_id final (job_id r)
           = Some (r\<lparr>status := newStatus MAX_ATTEMPTS u, attempts := Some (currentAttempts r),
                     last_error := write_last_error err (last_error r)\<rparr>)"
    and "messages final =
           (if isMaxAttemptsReached MAX_ATTEMPTS u
            then (case linked_message r of None \<Rightarrow> messages s
                  | Some m \<Rightarrow> messages (update_message m (js ''failed'') s))
            else messages s)"
proof -
  let ?claimed = "\<lambda>x::job. x\<lparr>status := Processing, attempts := Some (currentAttempts r)\<rparr>"
  let ?s1 = "update_job (job_id r) ?claimed s"
  let ?fail = "\<lambda>x::job. x\<lparr>status := newStatus MAX_ATTEMPTS u,
                           last_error := write_last_error err (last_error x)\<rparr>"
  let ?s2 = "update_job (job_id r) ?fail ?s1"
  let ?drive = "drive MAX_ATTEMPTS c e"
  note by_id = select_oldest_queued_by_id [OF d sel]
  show cl: "claim_update r s = (?s1, Some u)"
    by (simp add: claim_update_by_id [OF d] by_id u_def)
  have "resume MAX_ATTEMPTS c e Await_query s = (Some (Await_claim r), s)"
    using q sel by simp
  then have r0: "?drive Await_query s = ?drive (Await_claim r) s"
    by (rule drive_step)
  have r1: "?drive (Await_claim r) s = ?drive (Await_job_failed u err) ?s1"
  proof (cases c)
    case False
    with err have "err = Message (js ''WhatsApp client not initialized'')"
      by (simp add: sendError_message_def)
    with False cl phone
    have "resume MAX_ATTEMPTS c e (Await_claim r) s = (Some (Await_job_failed u err), ?s1)"
      by (simp add: u_def)
    then show ?thesis by (rule drive_step)
  next
    case True
    let ?w = "e164ToWhatsAppId (normalizePhone phone)"
    from True cl phone
    have "resume MAX_ATTEMPTS c e (Await_claim r) s = (Some (Await_send u ?w), ?s1)"
      by (simp add: u_def Let_def)
    then have "?drive (Await_claim r) s = ?drive (Await_send u ?w) ?s1"
      by (rule drive_step)
    moreover from True err
    have "resume MAX_ATTEMPTS c e (Await_send u ?w) ?s1 = (Some (Await_job_failed u err), ?s1)"
      by (cases "send_result e") (simp_all add: sendError_message_def)
    then have "?drive (Await_send u ?w) ?s1 = ?drive (Await_job_failed u err) ?s1"
      by (rule drive_step)
    ultimately show ?thesis by (rule trans)
  qed
  have ju: "job_id u = job_id r" and mu: "linked_message u = linked_message r"
    by (simp_all add: u_def linked_message_def)
  have fin: "final = (if isMaxAttemptsReached MAX_ATTEMPTS u
                      then (case linked_message r of None \<Rightarrow> ?s2 | Some m \<Rightarrow> update_message m (js ''failed'') ?s2)
                      else ?s2)"
  proof -
    have "final = ?drive (Await_job_failed u err) ?s1"
      unfolding final_def r0 r1 ..
    also have "\<dots> = (if isMaxAttemptsReached MAX_ATTEMPTS u
                      then (case linked_message r of None \<Rightarrow> ?s2 | Some m \<Rightarrow> update_message m (js ''failed'') ?s2)
                      else ?s2)"
    proof (cases "isMaxAttemptsReached MAX_ATTEMPTS u \<and> linked_message r \<noteq> None")
      case True
      then obtain m where m: "linked_message r = Some m" by auto
      from True have "resume MAX_ATTEMPTS c e (Await_job_failed u err) ?s1 = (Some (Await_message_failed u), ?s2)"
        by (simp add: ju mu Let_def)
      then have "?drive (Await_job_failed u err) ?s1 = ?drive (Await_message_failed u) ?s2"
        by (rule drive_step)
      moreover have "resume MAX_ATTEMPTS c e (Await_message_failed u) ?s2 = (None, update_message m (js ''failed'') ?s2)"
        by (simp add: mu m)
      then have "?drive (Await_message_failed u) ?s2 = update_message m (js ''failed'') ?s2"
        by (rule drive_done)
      ultimately have "?drive (Await_job_failed u err) ?s1 = update_message m (js ''failed'') ?s2"
        by (rule trans)
      with True m show ?thesis by simp
    next
      case False
      then have "resume MAX_ATTEMPTS c e (Await_job_failed u err) ?s1 = (None, ?s2)"
        by (auto simp: ju mu Let_def)
      then have "?drive (Await_job_failed u err) ?s1 = ?s2"
        by (rule drive_done)
      with False show ?thesis by (auto split: option.splits)
    qed
    finally show ?thesis .
  qed
  have "job_by_id ?s2 (job_id r) = Some (?fail (?claimed r))"
    by (simp add: job_by_id_update_job by_id)
  then show "job_by_id final (job_id r)
           = Some (r\<lparr>status := newStatus MAX_ATTEMPTS u, attempts := Some (currentAttempts r),
                     last_error := write_last_error err (last_error r)\<rparr>)"
    by (simp add: fin split: option.splits)
  show "messages final =
           (if isMaxAttemptsReached MAX_ATTEMPTS u
            then (case linked_message r of None \<Rightarrow> messages s
                  | Some m \<Rightarrow> messages (update_message m (js ''failed'') s))
            else messages s)"
    by (simp add: fin update_job_def update_message_def split: option.splits)
qed

lemma drive_failed_send_messages_max:
  fixes MAX_ATTEMPTS :: int
  assumes "distinct (map job_id (outbox_jobs s))"
    and "select_oldest_queued (outbox_jobs s) = Some r"
    and "\<not> query_error e"
    and "to_phone_e164 r = Some phone"
    and "sendError_message c e = Some err"
    and "isMaxAttemptsReached MAX_ATTEMPTS (r\<lparr>status := Processing, attempts := Some (currentAttempts r)\<rparr>)"
    and "linked_message r = Some m"
  shows "messages (drive MAX_ATTEMPTS c e Await_query s) = messages (update_message m (js ''failed'') s)"
  by (subst drive_failed_send(3) [OF assms(1-5)]) (simp only: assms(6,7) if_True option.case)

lemma drive_failed_send_messages_same:
  fixes MAX_ATTEMPTS :: int
  assumes "distinct (map job_id (outbox_jobs s))"
    and "select_oldest_queued (outbox_jobs s) = Some r"
    and "\<not> query_error e"
    and "to_phone_e164 r = Some phone"
    and "sendError_message c e = Some err"
    and "\<not> isMaxAttemptsReached MAX_ATTEMPTS (r\<lparr>status := Processing, attempts := Some (currentAttempts r)\<rparr>)"
  shows "messages (drive MAX_ATTEMPTS c e Await_query s) = messages s"
  by (subst drive_failed_send(3) [OF assms(1-5)]) (simp only: assms(6) if_False)

lemma newAttempts_claimed:
  assumes "\<forall>a. attempts r = Some a \<longrightarrow> 0 \<le> a"
  shows "newAttempts (r\<lparr>status := Processing, attempts := Some (currentAttempts r)\<rparr>)
           = or_default (attempts r) 0 + 1"
proof (cases "attempts r")
  case None
  then show ?thesis by (simp add: newAttempts_def currentAttempts_def or_default_def)
next
  case (Some a)
  with assms have "0 \<le> a" by simp
  then have "or_default (Some a) 0 + 1 \<noteq> 0" by (simp add: or_default_def)
  then show ?thesis
    unfolding newAttempts_def currentAttempts_def Some
    by (simp add: or_default_def [of "Some (or_default (Some a) 0 + 1)"])
qed

lemma isMaxAttemptsReached_claimed:
  assumes "\<forall>a. attempts r = Some a \<longrightarrow> 0 \<le> a"
  shows "isMaxAttemptsReached MAX_ATTEMPTS (r\<lparr>status := Processing, attempts := Some (currentAttempts r)\<rparr>)
           \<longleftrightarrow> MAX_ATTEMPTS \<le> or_default (attempts r) 0 + 1"
  unfolding isMaxAttemptsReached_def newAttempts_claimed [OF assms] ..

lemma message_failed_after_update:
  assumes "x \<in> set (messages (update_message m v s))" and "msg_id x = m"
  shows "msg_status x = v"
proof -
  from assms(1) obtain y where x: "x = (if msg_id y = m then y\<lparr>msg_status := v\<rparr> else y)"
    unfolding update_message_def by force
  show ?thesis
  proof (cases "msg_id y = m")
    case True
    with x show ?thesis by simp
  next
    case False
    with x assms(2) show ?thesis by simp
  qed
qed

text \<open>
  The outcome of a failed send in a call that nothing interleaves with: the attempts of
  the claimed record decide the new status, the linked message is set to failed with the
  job, and \<open>last_error\<close> is written from the \<open>message\<close> of the thrown object.
\<close>

lemma failed_send_outcome:
  fixes MAX_ATTEMPTS :: int
  assumes "distinct (map job_id (outbox_jobs s))"
    and "select_oldest_queued (outbox_jobs s) = Some r"
    and "\<not> query_error e"
    and "to_phone_e164 r = Some phone"
    and "sendError_message c e = Some err"
    and "\<forall>a. attempts r = Some a \<longrightarrow> 0 \<le> a"
  shows "snd (claim_update r s)
           = Some (r\<lparr>status := Processing, attempts := Some (or_default (attempts r) 0 + 1)\<rparr>)
         \<and> job_by_id (drive MAX_ATTEMPTS c e Await_query s) (job_id r)
           = Some (r\<lparr>status := (if or_default (attempts r) 0 + 1 \<ge> MAX_ATTEMPTS then Failed else Queued),
                     attempts := Some (or_default (attempts r) 0 + 1),
                     last_error := write_last_error err (last_error r)\<rparr>)
         \<and> (or_default (attempts r) 0 + 1 \<ge> MAX_ATTEMPTS \<longrightarrow>
              (\<forall>m. linked_message r = Some m \<longrightarrow>
                 (\<forall>x\<in>set (messages (drive MAX_ATTEMPTS c e Await_query s)).
                    msg_id x = m \<longrightarrow> msg_status x = js ''failed'')))
         \<and> (or_default (attempts r) 0 + 1 < MAX_ATTEMPTS \<longrightarrow>
              messages (drive MAX_ATTEMPTS c e Await_query s) = messages s)"
proof (intro conjI impI allI ballI)
  note mx = isMaxAttemptsReached_claimed [OF assms(6), of MAX_ATTEMPTS]
  show "snd (claim_update r s)
           = Some (r\<lparr>status := Processing, attempts := Some (or_default (attempts r) 0 + 1)\<rparr>)"
    unfolding drive_failed_send(1) [OF assms(1-5)] currentAttempts_def by simp
  show "job_by_id (drive MAX_ATTEMPTS c e Await_query s) (job_id r)
           = Some (r\<lparr>status := (if or_default (attempts r) 0 + 1 \<ge> MAX_ATTEMPTS then Failed else Queued),
                     attempts := Some (or_default (attempts r) 0 + 1),
                     last_error := write_last_error err (last_error r)\<rparr>)"
    unfolding drive_failed_send(2) [OF assms(1-5)] newStatus_def mx
    unfolding currentAttempts_def by (rule refl)
  {
    fix m x
    assume "MAX_ATTEMPTS \<le> or_default (attempts r) 0 + 1" and m: "linked_message r = Some m"
      and x: "x \<in> set (messages (drive MAX_ATTEMPTS c e Await_query s))" and i: "msg_id x = m"
    then have "isMaxAttemptsReached MAX_ATTEMPTS (r\<lparr>status := Processing, attempts := Some (currentAttempts r)\<rparr>)"
      unfolding mx by simp
    note eq = drive_failed_send_messages_max [OF assms(1-5) this m]
    from x show "msg_status x = js ''failed''"
      unfolding eq using i by (rule message_failed_after_update)
  }
  {
    assume "or_default (attempts r) 0 + 1 < MAX_ATTEMPTS"
    then have "\<not> isMaxAttemptsReached MAX_ATTEMPTS (r\<lparr>status := Processing, attempts := Some (currentAttempts r)\<rparr>)"
      unfolding mx by simp
    then show "messages (drive MAX_ATTEMPTS c e Await_query s) = messages s"
      by (rule drive_failed_send_messages_same [OF assms(1-5)])
  }
qed


section \<open>The attempts counter\<close>

lemma find_attempts_cong:
  "map (\<lambda>r. (job_id r, attempts r)) xs = map (\<lambda>r. (job_id r, attempts r)) ys \<Longrightarrow>
   map_option attempts (find (\<lambda>r. job_id r = i) xs) = map_option attempts (find (\<lambda>r. job_id r = i) ys)"
proof (induction xs arbitrary: ys)
  case Nil
  then show ?case by simp
next
  case (Cons x xs)
  then obtain y ys' where ys: "ys = y # ys'" by (cases ys) auto
  with Cons.prems have "job_id x = job_id y" "attempts x = attempts y"
    and "map (\<lambda>r. (job_id r, attempts r)) xs = map (\<lambda>r. (job_id r, attempts r)) ys'"
    by simp_all
  with Cons.IH [of ys'] ys show ?case by simp
qed

lemma update_job_keeps_attempts:
  "(\<And>r. job_id (f r) = job_id r \<and> attempts (f r) = attempts r) \<Longrightarrow>
   map (\<lambda>r. (job_id r, attempts r)) (outbox_jobs (update_job i f s))
     = map (\<lambda>r. (job_id r, attempts r)) (outbox_jobs s)"
  by (simp add: update_job_def comp_def)

lemma update_message_keeps_jobs [simp]: "outbox_jobs (update_message m v s) = outbox_jobs s"
  by (simp add: update_message_def)

lemma resume_keeps_attempts:
  assumes "rank ph \<le> 3" and "resume MAX_ATTEMPTS c e ph s = (po, s')"
  shows "map (\<lambda>r. (job_id r, attempts r)) (outbox_jobs s')
           = map (\<lambda>r. (job_id r, attempts r)) (outbox_jobs s)"
    and "po = Some ph' \<Longrightarrow> rank ph' \<le> 3"
proof -
  have "map (\<lambda>r. (job_id r, attempts r)) (outbox_jobs s')
           = map (\<lambda>r. (job_id r, attempts r)) (outbox_jobs s)
        \<and> (po = Some ph' \<longrightarrow> rank ph' \<le> 3)"
  proof (cases ph)
    case Await_query
    with assms(1) show ?thesis by simp
  next
    case (Await_claim j)
    with assms(1) show ?thesis by simp
  next
    case (Await_send u w)
    with assms(2) show ?thesis by (cases "send_result e") auto
  next
    case (Await_job_sent u)
    with assms(2) show ?thesis
      by (cases "linked_message u") (auto simp: Let_def update_job_keeps_attempts)
  next
    case (Await_message_sent u)
    with assms(2) show ?thesis by (cases "linked_message u") auto
  next
    case (Await_job_failed u msg)
    with assms(2) show ?thesis
      by (cases "isMaxAttemptsReached MAX_ATTEMPTS u \<and> linked_message u \<noteq> None")
        (auto simp: Let_def update_job_keeps_attempts)
  next
    case (Await_message_failed u)
    with assms(2) show ?thesis by (cases "linked_message u") auto
  qed
  then show "map (\<lambda>r. (job_id r, attempts r)) (outbox_jobs s')
           = map (\<lambda>r. (job_id r, attempts r)) (outbox_jobs s)"
    and "po = Some ph' \<Longrightarrow> rank ph' \<le> 3"
    by simp_all
qed

lemma drive_keeps_attempts:
  "rank ph \<le> 3 \<Longrightarrow>
   map (\<lambda>r. (job_id r, attempts r)) (outbox_jobs (drive MAX_ATTEMPTS c e ph s))
     = map (\<lambda>r. (job_id r, attempts r)) (outbox_jobs s)"
proof (induction MAX_ATTEMPTS c e ph s rule: drive.induct)
  case (1 MAX_ATTEMPTS c e ph s)
  obtain po s' where r: "resume MAX_ATTEMPTS c e ph s = (po, s')"
    by (cases "resume MAX_ATTEMPTS c e ph s")
  note k = resume_keeps_attempts [OF "1.prems" r]
  show ?case
  proof (cases po)
    case None
    with r have "drive MAX_ATTEMPTS c e ph s = s'" by (simp add: drive_done)
    with k(1) show ?thesis by simp
  next
    case (Some ph')
    with r have d: "drive MAX_ATTEMPTS c e ph s = drive MAX_ATTEMPTS c e ph' s'"
      by (simp add: drive_step)
    from Some have "rank ph' \<le> 3" by (rule k(2))
    with "1.IH" [OF r [symmetric] Some] have
      "map (\<lambda>r. (job_id r, attempts r)) (outbox_jobs (drive MAX_ATTEMPTS c e ph' s'))
         = map (\<lambda>r. (job_id r, attempts r)) (outbox_jobs s')"
      by simp
    with d k(1) show ?thesis by simp
  qed
qed

lemma drive_claimed_attempts:
  fixes MAX_ATTEMPTS :: int
  assumes d: "distinct (map job_id (outbox_jobs s))"
    and sel: "select_oldest_queued (outbox_jobs s) = Some r"
    and q: "\<not> query_error e"
  shows "map_option attempts (job_by_id (drive MAX_ATTEMPTS c e Await_query s) (job_id r))
           = Some (Some (currentAttempts r))"
proof -
  let ?claimed = "\<lambda>x::job. x\<lparr>status := Processing, attempts := Some (currentAttempts r)\<rparr>"
  let ?s1 = "update_job (job_id r) ?claimed s"
  let ?u = "?claimed r"
  let ?drive = "drive MAX_ATTEMPTS c e"
  let ?key = "\<lambda>r::job. (job_id r, attempts r)"
  note by_id = select_oldest_queued_by_id [OF d sel]
  have cl: "claim_update r s = (?s1, Some ?u)"
    by (simp add: claim_update_by_id [OF d] by_id)
  have "resume MAX_ATTEMPTS c e Await_query s = (Some (Await_claim r), s)"
    using q sel by simp
  then have r0: "?drive Await_query s = ?drive (Await_claim r) s"
    by (rule drive_step)
  have keep: "map ?key (outbox_jobs (?drive (Await_claim r) s)) = map ?key (outbox_jobs ?s1)"
  proof (cases "to_phone_e164 r")
    case None
    with cl have "resume MAX_ATTEMPTS c e (Await_claim r) s = (None, ?s1)"
      by simp
    then have "?drive (Await_claim r) s = ?s1" by (rule drive_done)
    then show ?thesis by simp
  next
    case (Some phone)
    let ?next = "if \<not> c then Await_job_failed ?u (Message (js ''WhatsApp client not initialized''))
                 else Await_send ?u (e164ToWhatsAppId (normalizePhone phone))"
    from cl Some have "resume MAX_ATTEMPTS c e (Await_claim r) s = (Some ?next, ?s1)"
      by (simp add: Let_def)
    then have "?drive (Await_claim r) s = ?drive ?next ?s1" by (rule drive_step)
    moreover have "rank ?next \<le> 3" by simp
    then have "map ?key (outbox_jobs (?drive ?next ?s1)) = map ?key (outbox_jobs ?s1)"
      by (rule drive_keeps_attempts)
    ultimately show ?thesis by simp
  qed
  have "map_option attempts (job_by_id (?drive Await_query s) (job_id r))
          = map_option attempts (job_by_id ?s1 (job_id r))"
    unfolding r0 job_by_id_def using keep by (rule find_attempts_cong)
  also have "job_by_id ?s1 (job_id r) = Some ?u"
    by (simp add: job_by_id_update_job by_id)
  finally show ?thesis by simp
qed

text \<open>
  Claim C2 against the source: the claim writes the attempts of the row as the call's
  query returned it, plus one, and tests only that the row is queued. Worker 1 queried the
  job at 0 attempts and is held up; worker 0 claims the job twice, fails twice and puts it
  back in the queue at 2 attempts. The claim of worker 1 then matches and sets attempts
  to 1: the value after the claim is not the value before plus one, and it has decreased.
\<close>

theorem stale_claim_overwrites_attempts:
  "map_option attempts (job_by_id (db (run 5 stale_claim_events two_workers)) 1) = Some (Some 2)
   \<and> map_option status (job_by_id (db (run 5 stale_claim_events two_workers)) 1) = Some Queued
   \<and> running (procs (run 5 stale_claim_events two_workers) ! 1) = [Await_claim example_job]
   \<and> map_option attempts
         (job_by_id (db (run 5 (stale_claim_events @ [Resume 1 0 send_ok]) two_workers)) 1)
       = Some (Some 1)
   \<and> map_option status
         (job_by_id (db (run 5 (stale_claim_events @ [Resume 1 0 send_ok]) two_workers)) 1)
       = Some Processing"
  by code_simp

text \<open>
  Claim C5, as stated, fails: the claim comes before the guard on the client handle, and
  the guard throws into the failure path. With no client the job ends with one attempt
  more, and with \<open>MAX_ATTEMPTS = 1\<close> it ends failed.
\<close>

theorem no_client_counterexample:
  "select_oldest_queued (outbox_jobs example_store) = Some example_job
   \<and> map_option attempts (job_by_id example_store (job_id example_job)) = Some (Some 0)
   \<and> map_option attempts
         (job_by_id (snd (processOutboundJob 5 send_ok (idle False, example_store))) (job_id example_job))
       = Some (Some 1)
   \<and> map_option status
         (job_by_id (snd (processOutboundJob 1 send_ok (idle False, example_store))) (job_id example_job))
       = Some Failed"
  by code_simp

text \<open>
  Claim C5, amended: when a call runs while the client handle is not set, the queued job
  it selects is claimed, which adds one to its attempts, and is then handled as a failed
  send with the error \<open>WhatsApp client not initialized\<close>: it is queued again with that
  \<open>last_error\<close> when the new attempts are below \<open>MAX_ATTEMPTS\<close>, and failed otherwise.
\<close>

theorem no_client_takes_failure_path:
  fixes MAX_ATTEMPTS :: int
  assumes "\<not> isProcessingJob p" and "\<not> client p"
    and "distinct (map job_id (outbox_jobs s))"
    and "select_oldest_queued (outbox_jobs s) = Some r"
    and "\<not> query_error e"
    and "to_phone_e164 r = Some phone"
    and "\<forall>a. attempts r = Some a \<longrightarrow> 0 \<le> a"
  shows "job_by_id (snd (processOutboundJob MAX_ATTEMPTS e (p, s))) (job_id r)
           = Some (r\<lparr>status := (if or_default (attempts r) 0 + 1 \<ge> MAX_ATTEMPTS then Failed else Queued),
                     attempts := Some (or_default (attempts r) 0 + 1),
                     last_error := Some (js ''WhatsApp client not initialized'')\<rparr>)"
proof -
  have err: "sendError_message (client p) e = Some (Message (js ''WhatsApp client not initialized''))"
    using assms(2) by (simp add: sendError_message_def)
  have call: "snd (processOutboundJob MAX_ATTEMPTS e (p, s)) = drive MAX_ATTEMPTS (client p) e Await_query s"
    using assms(1) by (simp add: processOutboundJob_def)
  have "job_by_id (drive MAX_ATTEMPTS (client p) e Await_query s) (job_id r)
           = Some (r\<lparr>status := (if or_default (attempts r) 0 + 1 \<ge> MAX_ATTEMPTS then Failed else Queued),
                     attempts := Some (or_default (attempts r) 0 + 1),
                     last_error := Some (js ''WhatsApp client not initialized'')\<rparr>)"
    unfolding drive_failed_send(2) [OF assms(3-6) err] newStatus_def
      isMaxAttemptsReached_claimed [OF assms(7)]
    unfolding currentAttempts_def write_last_error_def message_property.case by (rule refl)
  then show ?thesis unfolding call .
qed

theorem no_client_takes_failure_path_witness:
  "\<not> isProcessingJob (idle False) \<and> \<not> client (idle False)
   \<and> distinct (map job_id (outbox_jobs example_store))
   \<and> select_oldest_queued (outbox_jobs example_store) = Some example_job
   \<and> \<not> query_error send_ok
   \<and> to_phone_e164 example_job = Some (js ''+15551234567'')
   \<and> attempts example_job = Some 0
   \<and> job_by_id (snd (processOutboundJob 5 send_ok (idle False, example_store))) (job_id example_job)
       = Some (example_job\<lparr>status := Queued, attempts := Some 1,
                 last_error := Some (js ''WhatsApp client not initialized'')\<rparr>)"
proof -
  have p: "\<not> isProcessingJob (idle False)" "\<not> client (idle False)"
    by (simp_all add: idle_def)
  have h1: "distinct (map job_id (outbox_jobs example_store))"
    by (simp add: example_eval)
  have h2: "select_oldest_queued (outbox_jobs example_store) = Some example_job"
    by code_simp
  have h3: "\<not> query_error send_ok"
    by (simp add: send_ok_def)
  have h4: "to_phone_e164 example_job = Some (js ''+15551234567'')"
    by (simp add: example_job_def)
  have a: "attempts example_job = Some 0"
    by (simp add: example_job_def)
  then have h6: "\<forall>a. attempts example_job = Some a \<longrightarrow> 0 \<le> a"
    by simp
  have A: "or_default (attempts example_job) 0 + 1 = 1"
    by (simp add: a or_default_def)
  from no_client_takes_failure_path [OF p h1 h2 h3 h4 h6, of 5, unfolded A]
  have "job_by_id (snd (processOutboundJob 5 send_ok (idle False, example_store))) (job_id example_job)
       = Some (example_job\<lparr>status := Queued, attempts := Some 1,
                 last_error := Some (js ''WhatsApp client not initialized'')\<rparr>)"
    by simp
  then show ?thesis using p h1 h2 h3 h4 a by (intro conjI)
qed

section \<open>The reentrancy guard\<close>

lemma single_flight_call: "single_flight p \<Longrightarrow> single_flight (processOutboundJob_call p)"
  by (auto simp: single_flight_def processOutboundJob_call_def)

lemma single_flight_resume:
  assumes "single_flight p"
  shows "single_flight (fst (processOutboundJob_resume MAX_ATTEMPTS e k (p, s)))"
proof (cases "k < length (running p)")
  case False
  with assms show ?thesis by (simp add: processOutboundJob_resume_def)
next
  case True
  with assms obtain ph where run: "running p = [ph]" and k: "k = 0" and flag: "isProcessingJob p"
    by (cases "running p") (auto simp: single_flight_def)
  obtain po s' where r: "resume MAX_ATTEMPTS (client p) e ph s = (po, s')"
    by (cases "resume MAX_ATTEMPTS (client p) e ph s")
  show ?thesis
  proof (cases po)
    case None
    with r run k show ?thesis
      by (simp add: processOutboundJob_resume_def single_flight_def)
  next
    case (Some ph')
    with r run k flag show ?thesis
      by (simp add: processOutboundJob_resume_def single_flight_def)
  qed
qed

lemma list_all_update: "list_all P xs \<Longrightarrow> P q \<Longrightarrow> list_all P (xs[i := q])"
  by (induction xs arbitrary: i) (auto split: nat.splits)

lemma single_flight_step:
  assumes "list_all single_flight (procs sys)"
  shows "list_all single_flight (procs (step MAX_ATTEMPTS ev sys))"
proof (cases ev)
  case (Timer i)
  show ?thesis
  proof (cases "i < length (procs sys)")
    case True
    with assms have "single_flight (procs sys ! i)" by (simp add: list_all_length)
    then have "single_flight (processOutboundJob_call (procs sys ! i))"
      by (rule single_flight_call)
    with assms Timer True show ?thesis by (simp add: list_all_update)
  next
    case False
    with assms Timer show ?thesis by simp
  qed
next
  case (Resume i k e)
  show ?thesis
  proof (cases "i < length (procs sys)")
    case True
    with assms have "single_flight (procs sys ! i)" by (simp add: list_all_length)
    then have "single_flight (fst (processOutboundJob_resume MAX_ATTEMPTS e k (procs sys ! i, db sys)))"
      by (rule single_flight_resume)
    with assms Resume True show ?thesis
      by (cases "processOutboundJob_resume MAX_ATTEMPTS e k (procs sys ! i, db sys)")
        (simp add: list_all_update)
  next
    case False
    with assms Resume show ?thesis by simp
  qed
qed

lemma single_flight_run:
  "list_all single_flight (procs sys) \<Longrightarrow>
   list_all single_flight (procs (run MAX_ATTEMPTS events sys))"
  unfolding run_def
  by (induction events arbitrary: sys) (simp_all add: single_flight_step)

lemma all_idle_single_flight: "all_idle sys \<Longrightarrow> list_all single_flight (procs sys)"
  by (auto simp: all_idle_def single_flight_def list_all_iff)

lemma single_flight_sending: "single_flight p \<Longrightarrow> length (filter sending (running p)) \<le> 1"
  unfolding single_flight_def by (blast intro: le_trans [OF length_filter_le])

text \<open>
  Claim C8: a call of \<open>processOutboundJob\<close> made while the flag is set changes nothing.
  Hence, from a state where every process is idle and whatever the timers and the
  resumptions do, every process has at most one invocation suspended, so at most one
  awaiting \<open>sendText\<close>, and its flag is set exactly while one is suspended: whichever way
  an invocation ends, its end clears the flag.
\<close>

theorem reentrancy_guard:
  assumes "all_idle sys"
  shows "list_all (\<lambda>p. length (running p) \<le> 1
                      \<and> length (filter sending (running p)) \<le> 1
                      \<and> (isProcessingJob p \<longleftrightarrow> running p \<noteq> []))
           (procs (run MAX_ATTEMPTS events sys))
         \<and> (isProcessingJob p \<longrightarrow>
              processOutboundJob_call p = p \<and> processOutboundJob MAX_ATTEMPTS e (p, s) = (p, s))
         \<and> (\<not> isProcessingJob p \<longrightarrow>
              \<not> isProcessingJob (fst (processOutboundJob MAX_ATTEMPTS e (p, s))))
         \<and> (k < length (running p) \<and> fst (resume MAX_ATTEMPTS (client p) e (running p ! k) s) = None \<longrightarrow>
              \<not> isProcessingJob (fst (processOutboundJob_resume MAX_ATTEMPTS e k (p, s))))"
proof (intro conjI impI)
  from assms have "list_all single_flight (procs (run MAX_ATTEMPTS events sys))"
    by (intro single_flight_run all_idle_single_flight)
  then show "list_all (\<lambda>p. length (running p) \<le> 1
                      \<and> length (filter sending (running p)) \<le> 1
                      \<and> (isProcessingJob p \<longleftrightarrow> running p \<noteq> []))
           (procs (run MAX_ATTEMPTS events sys))"
    unfolding list_all_iff using single_flight_sending by (auto simp: single_flight_def)
next
  assume "isProcessingJob p"
  then show "processOutboundJob_call p = p" and "processOutboundJob MAX_ATTEMPTS e (p, s) = (p, s)"
    by (simp_all add: processOutboundJob_call_def processOutboundJob_def)
next
  assume "\<not> isProcessingJob p"
  then show "\<not> isProcessingJob (fst (processOutboundJob MAX_ATTEMPTS e (p, s)))"
    by (simp add: processOutboundJob_def)
next
  assume "k < length (running p) \<and> fst (resume MAX_ATTEMPTS (client p) e (running p ! k) s) = None"
  then show "\<not> isProcessingJob (fst (processOutboundJob_resume MAX_ATTEMPTS e k (p, s)))"
    by (cases "resume MAX_ATTEMPTS (client p) e (running p ! k) s")
      (simp add: processOutboundJob_resume_def)
qed

theorem reentrancy_guard_witness:
  "all_idle two_workers
   \<and> list_all (\<lambda>p. length (running p) \<le> 1
                      \<and> length (filter sending (running p)) \<le> 1
                      \<and> (isProcessingJob p \<longleftrightarrow> running p \<noteq> []))
         (procs (run 5 [Timer 0, Timer 0, Resume 0 0 send_ok, Timer 0, Resume 0 0 send_ok] two_workers))
   \<and> isProcessingJob (processOutboundJob_call (idle True))
   \<and> processOutboundJob_call (processOutboundJob_call (idle True)) = processOutboundJob_call (idle True)
   \<and> processOutboundJob 5 send_ok (processOutboundJob_call (idle True), example_store)
       = (processOutboundJob_call (idle True), example_store)
   \<and> \<not> isProcessingJob (idle True)
   \<and> \<not> isProcessingJob (fst (processOutboundJob 5 send_ok (idle True, example_store)))
   \<and> fst (resume 5 (client (processOutboundJob_call (idle True))) query_fails
            (running (processOutboundJob_call (idle True)) ! 0) example_store) = None
   \<and> \<not> isProcessingJob
         (fst (processOutboundJob_resume 5 query_fails 0 (processOutboundJob_call (idle True), example_store)))"
proof -
  let ?busy = "processOutboundJob_call (idle True)"
  have h: "all_idle two_workers"
    by (simp add: all_idle_def two_workers_def idle_def)
  have b: "isProcessingJob ?busy" and i: "\<not> isProcessingJob (idle True)"
    by (simp_all add: processOutboundJob_call_def idle_def)
  have k: "0 < length (running ?busy)"
    by (simp add: processOutboundJob_call_def idle_def)
  have r: "fst (resume 5 (client ?busy) query_fails (running ?busy ! 0) example_store) = None"
    by (simp add: processOutboundJob_call_def idle_def query_fails_def)
  note t1 = reentrancy_guard [OF h, where p = ?busy and MAX_ATTEMPTS = 5 and e = send_ok
      and s = example_store
      and events = "[Timer 0, Timer 0, Resume 0 0 send_ok, Timer 0, Resume 0 0 send_ok]"]
  note t2 = reentrancy_guard [OF h, where p = "idle True" and MAX_ATTEMPTS = 5 and e = send_ok
      and s = example_store]
  note t3 = reentrancy_guard [OF h, where p = ?busy and MAX_ATTEMPTS = 5 and e = query_fails
      and s = example_store and k = 0]
  from t1 have "list_all (\<lambda>p. length (running p) \<le> 1
                      \<and> length (filter sending (running p)) \<le> 1
                      \<and> (isProcessingJob p \<longleftrightarrow> running p \<noteq> []))
         (procs (run 5 [Timer 0, Timer 0, Resume 0 0 send_ok, Timer 0, Resume 0 0 send_ok] two_workers))"
    by (rule conjunct1)
  moreover from t1 b have "processOutboundJob_call ?busy = ?busy"
    and "processOutboundJob 5 send_ok (?busy, example_store) = (?busy, example_store)"
    by blast+
  moreover from t2 i have "\<not> isProcessingJob (fst (processOutboundJob 5 send_ok (idle True, example_store)))"
    by blast
  moreover from t3 k r have "\<not> isProcessingJob
         (fst (processOutboundJob_resume 5 query_fails 0 (?busy, example_store)))"
    by blast
  ultimately show ?thesis using h b i r by (intro conjI)
qed

section \<open>Ownership of claimed jobs and terminal rows\<close>

lemma touches_refl: "outbox_jobs s' = outbox_jobs s \<Longrightarrow> touches x s s'"
  by (simp add: touches_def job_by_id_def)

lemma touches_update_job:
  "(\<And>r. job_id (f r) = job_id r) \<Longrightarrow> touches x s (update_job x f s)"
  by (simp add: touches_def map_job_id_update_job job_by_id_update_job)

lemma job_by_id_same_jobs: "outbox_jobs s' = outbox_jobs s \<Longrightarrow> job_by_id s' = job_by_id s"
  by (rule ext) (simp add: job_by_id_def)

text \<open>What one resumption does to the job rows and to the ownership of the invocation.\<close>

lemma resume_kinds:
  assumes d: "distinct (map job_id (outbox_jobs s))"
    and r: "resume MAX_ATTEMPTS c e ph s = (po, s')"
  shows "(outbox_jobs s' = outbox_jobs s \<and> next_owner po = owns ph)
       \<or> (\<exists>x r r'. owns ph = None \<and> job_by_id s x = Some r \<and> status r = Queued
             \<and> touches x s s' \<and> job_by_id s' x = Some r' \<and> status r' = Processing
             \<and> (next_owner po = None \<or> next_owner po = Some x))
       \<or> (\<exists>x. owns ph = Some x \<and> touches x s s' \<and> next_owner po = None)"
proof (cases ph)
  case Await_query
  with r have "outbox_jobs s' = outbox_jobs s \<and> next_owner po = owns ph"
    by (auto simp: next_owner_def split: if_splits option.splits)
  then show ?thesis by blast
next
  case (Await_claim j)
  let ?claimed = "\<lambda>x::job. x\<lparr>status := Processing, attempts := Some (currentAttempts j)\<rparr>"
  show ?thesis
  proof (cases "\<exists>row. job_by_id s (job_id j) = Some row \<and> status row = Queued")
    case False
    then have "claim_update j s = (s, None)"
      by (auto simp: claim_update_by_id [OF d] split: option.splits)
    with r Await_claim have "outbox_jobs s' = outbox_jobs s \<and> next_owner po = owns ph"
      by (simp add: next_owner_def)
    then show ?thesis by blast
  next
    case True
    then obtain row where row: "job_by_id s (job_id j) = Some row" "status row = Queued"
      by blast
    let ?s1 = "update_job (job_id j) ?claimed s"
    from row have cl: "claim_update j s = (?s1, Some (?claimed row))"
      by (simp add: claim_update_by_id [OF d])
    from row(1) have idr: "job_id row = job_id j"
      by (simp add: job_by_id_SomeD)
    from r Await_claim cl have s': "s' = ?s1"
      by (auto simp: Let_def split: option.splits if_splits)
    from r Await_claim cl idr have po: "next_owner po = None \<or> next_owner po = Some (job_id j)"
      by (auto simp: Let_def next_owner_def split: option.splits if_splits)
    have t: "touches (job_id j) s s'"
      unfolding s' by (rule touches_update_job) simp
    have "job_by_id s' (job_id j) = Some (?claimed row)"
      unfolding s' by (simp add: job_by_id_update_job row(1))
    with Await_claim row t po
    have "\<exists>x r r'. owns ph = None \<and> job_by_id s x = Some r \<and> status r = Queued
             \<and> touches x s s' \<and> job_by_id s' x = Some r' \<and> status r' = Processing
             \<and> (next_owner po = None \<or> next_owner po = Some x)"
      by (intro exI [of _ "job_id j"] exI [of _ row] exI [of _ "?claimed row"]) simp
    then show ?thesis by blast
  qed
next
  case (Await_send u w)
  show ?thesis
  proof (cases "send_result e")
    case Resolved
    with r Await_send have "outbox_jobs s' = outbox_jobs s \<and> next_owner po = owns ph"
      by (auto simp: next_owner_def)
    then show ?thesis by blast
  next
    case (Rejected msg)
    with r Await_send have "outbox_jobs s' = outbox_jobs s \<and> next_owner po = owns ph"
      by (auto simp: next_owner_def)
    then show ?thesis by blast
  next
    case Rejected_nullish
    with r Await_send have "s' = s" and "next_owner po = None"
      by (auto simp: next_owner_def)
    with Await_send have "\<exists>x. owns ph = Some x \<and> touches x s s' \<and> next_owner po = None"
      by (simp add: touches_refl)
    then show ?thesis by blast
  qed
next
  case (Await_job_sent u)
  let ?f = "\<lambda>r::job. r\<lparr>status := Sent\<rparr>"
  from r Await_job_sent have "s' = update_job (job_id u) ?f s" and "next_owner po = None"
    by (auto simp: Let_def next_owner_def split: option.splits)
  moreover have "touches (job_id u) s (update_job (job_id u) ?f s)"
    by (rule touches_update_job) simp
  ultimately have "\<exists>x. owns ph = Some x \<and> touches x s s' \<and> next_owner po = None"
    using Await_job_sent by simp
  then show ?thesis by blast
next
  case (Await_message_sent u)
  with r have "outbox_jobs s' = outbox_jobs s \<and> next_owner po = owns ph"
    by (auto simp: next_owner_def split: option.splits)
  then show ?thesis by blast
next
  case (Await_job_failed u msg)
  let ?f = "\<lambda>r::job. r\<lparr>status := newStatus MAX_ATTEMPTS u,
                          last_error := write_last_error msg (last_error r)\<rparr>"
  from r Await_job_failed have "s' = update_job (job_id u) ?f s" and "next_owner po = None"
    by (auto simp: Let_def next_owner_def split: option.splits if_splits)
  moreover have "touches (job_id u) s (update_job (job_id u) ?f s)"
    by (rule touches_update_job) simp
  ultimately have "\<exists>x. owns ph = Some x \<and> touches x s s' \<and> next_owner po = None"
    using Await_job_failed by simp
  then show ?thesis by blast
next
  case (Await_message_failed u)
  with r have "outbox_jobs s' = outbox_jobs s \<and> next_owner po = owns ph"
    by (auto simp: next_owner_def split: option.splits)
  then show ?thesis by blast
qed

lemma owner_call: "single_flight p \<Longrightarrow> owner (processOutboundJob_call p) = owner p"
  by (cases "running p") (auto simp: processOutboundJob_call_def owner_def single_flight_def)

lemma proc_resume_kinds:
  assumes d: "distinct (map job_id (outbox_jobs s))"
    and sf: "single_flight p"
    and pr: "processOutboundJob_resume MAX_ATTEMPTS e k (p, s) = (p', s')"
  shows "(outbox_jobs s' = outbox_jobs s \<and> owner p' = owner p)
       \<or> (\<exists>x r r'. owner p = None \<and> job_by_id s x = Some r \<and> status r = Queued
             \<and> touches x s s' \<and> job_by_id s' x = Some r' \<and> status r' = Processing
             \<and> (owner p' = None \<or> owner p' = Some x))
       \<or> (\<exists>x. owner p = Some x \<and> touches x s s' \<and> owner p' = None)"
proof (cases "k < length (running p)")
  case False
  with pr have "p' = p" "s' = s" by (simp_all add: processOutboundJob_resume_def)
  then show ?thesis by simp
next
  case True
  with sf obtain ph where run: "running p = [ph]" and k: "k = 0"
    by (cases "running p") (auto simp: single_flight_def)
  obtain po t where r: "resume MAX_ATTEMPTS (client p) e ph s = (po, t)"
    by (cases "resume MAX_ATTEMPTS (client p) e ph s")
  from pr r run k have t: "t = s'"
    by (cases po) (simp_all add: processOutboundJob_resume_def)
  from pr r run k have "owner p' = next_owner po"
    by (cases po) (auto simp: processOutboundJob_resume_def owner_def next_owner_def)
  moreover from run have "owner p = owns ph" by (simp add: owner_def)
  ultimately show ?thesis using resume_kinds [OF d r] unfolding t by simp
qed

lemma dispatch_inv_update:
  assumes inv: "dispatch_inv sys"
    and i: "i < length (procs sys)"
    and sf: "single_flight p'"
    and ids: "map job_id (outbox_jobs s') = map job_id (outbox_jobs (db sys))"
    and others: "\<And>j y. j < length (procs sys) \<Longrightarrow> j \<noteq> i \<Longrightarrow> owner (procs sys ! j) = Some y
                   \<Longrightarrow> job_by_id s' y = job_by_id (db sys) y \<and> owner p' \<noteq> Some y"
    and mine: "\<And>y. owner p' = Some y \<Longrightarrow> \<exists>r. job_by_id s' y = Some r \<and> status r = Processing"
  shows "dispatch_inv (sys\<lparr>procs := (procs sys)[i := p'], db := s'\<rparr>)"
proof -
  let ?P = "procs sys"
  define P' where "P' = (procs sys)[i := p']"
  have len: "length P' = length ?P"
    by (simp add: P'_def)
  have at_i: "P' ! i = p'"
    using i by (simp add: P'_def)
  have at_j: "P' ! j = ?P ! j" if "j \<noteq> i" for j
    using that by (simp add: P'_def)
  from inv have d: "distinct (map job_id (outbox_jobs (db sys)))"
    unfolding dispatch_inv_def by (rule conjunct1)
  from inv have all: "list_all single_flight ?P"
    unfolding dispatch_inv_def by (elim conjE)
  from inv have own0: "\<forall>j < length ?P. \<forall>y. owner (?P ! j) = Some y \<longrightarrow>
                (\<exists>r. job_by_id (db sys) y = Some r \<and> status r = Processing)
                \<and> (\<forall>j' < length ?P. owner (?P ! j') = Some y \<longrightarrow> j' = j)"
    unfolding dispatch_inv_def by (elim conjE)
  have own_row: "\<exists>r. job_by_id (db sys) y = Some r \<and> status r = Processing"
    if "j < length ?P" "owner (?P ! j) = Some y" for j y
    using own0 that by blast
  have own_unique: "j' = j"
    if "j < length ?P" "owner (?P ! j) = Some y" "j' < length ?P" "owner (?P ! j') = Some y" for j j' y
    using own0 that by blast
  have "(\<exists>r. job_by_id s' y = Some r \<and> status r = Processing)
           \<and> (\<forall>j' < length P'. owner (P' ! j') = Some y \<longrightarrow> j' = j)"
    if j: "j < length P'" and o: "owner (P' ! j) = Some y" for j y
  proof (cases "j = i")
    case True
    from o have oy: "owner p' = Some y"
      unfolding True at_i .
    have "j' = j" if j': "j' < length P'" and o': "owner (P' ! j') = Some y" for j'
    proof (rule ccontr)
      assume ne: "j' \<noteq> j"
      then have "j' \<noteq> i" unfolding True .
      from o' have "owner (?P ! j') = Some y"
        unfolding at_j [OF \<open>j' \<noteq> i\<close>] .
      with j' \<open>j' \<noteq> i\<close> have "owner p' \<noteq> Some y"
        unfolding len using others by blast
      with oy show False by (rule notE [rotated])
    qed
    with mine [OF oy] show ?thesis by blast
  next
    case False
    from j have j1: "j < length ?P" unfolding len .
    from o have j2: "owner (?P ! j) = Some y" unfolding at_j [OF False] .
    note o1 = others [OF j1 False j2]
    have "j' = j" if j': "j' < length P'" and o': "owner (P' ! j') = Some y" for j'
    proof -
      have "j' \<noteq> i"
      proof
        assume "j' = i"
        with o' have "owner p' = Some y" by (simp add: at_i)
        with o1 show False by blast
      qed
      from o' have "owner (?P ! j') = Some y" unfolding at_j [OF \<open>j' \<noteq> i\<close>] .
      moreover from j' have "j' < length ?P" unfolding len .
      ultimately show "j' = j" using j1 j2 by (intro own_unique [of j y j'])
    qed
    moreover from own_row [OF j1 j2] o1 have "\<exists>r. job_by_id s' y = Some r \<and> status r = Processing"
      by metis
    ultimately show ?thesis by blast
  qed
  then have third: "\<forall>j < length P'. \<forall>y. owner (P' ! j) = Some y \<longrightarrow>
           (\<exists>r. job_by_id s' y = Some r \<and> status r = Processing)
           \<and> (\<forall>j' < length P'. owner (P' ! j') = Some y \<longrightarrow> j' = j)"
    by blast
  from all sf have second: "list_all single_flight P'"
    unfolding P'_def by (rule list_all_update)
  from d have first: "distinct (map job_id (outbox_jobs s'))"
    unfolding ids .
  have e: "dispatch_inv (sys\<lparr>procs := P', db := s'\<rparr>) \<longleftrightarrow>
      distinct (map job_id (outbox_jobs s')) \<and> list_all single_flight P'
      \<and> (\<forall>j < length P'. \<forall>y. owner (P' ! j) = Some y \<longrightarrow>
           (\<exists>r. job_by_id s' y = Some r \<and> status r = Processing)
           \<and> (\<forall>j' < length P'. owner (P' ! j') = Some y \<longrightarrow> j' = j))"
    by (simp add: dispatch_inv_def)
  from first second third show ?thesis
    unfolding P'_def [symmetric] e by (intro conjI)
qed

lemma dispatch_inv_kinds:
  assumes inv: "dispatch_inv sys"
    and i: "i < length (procs sys)"
    and sf: "single_flight p'"
    and kinds: "(outbox_jobs s' = outbox_jobs (db sys) \<and> owner p' = owner (procs sys ! i))
       \<or> (\<exists>x r r'. owner (procs sys ! i) = None \<and> job_by_id (db sys) x = Some r \<and> status r = Queued
             \<and> touches x (db sys) s' \<and> job_by_id s' x = Some r' \<and> status r' = Processing
             \<and> (owner p' = None \<or> owner p' = Some x))
       \<or> (\<exists>x. owner (procs sys ! i) = Some x \<and> touches x (db sys) s' \<and> owner p' = None)"
  shows "dispatch_inv (sys\<lparr>procs := (procs sys)[i := p'], db := s'\<rparr>)"
    and "job_by_id (db sys) t = Some row \<Longrightarrow> terminal row \<Longrightarrow> job_by_id s' t = Some row"
proof -
  let ?P = "procs sys" and ?s = "db sys"
  from inv have own0: "\<forall>j < length ?P. \<forall>y. owner (?P ! j) = Some y \<longrightarrow>
                (\<exists>r. job_by_id ?s y = Some r \<and> status r = Processing)
                \<and> (\<forall>j' < length ?P. owner (?P ! j') = Some y \<longrightarrow> j' = j)"
    unfolding dispatch_inv_def by (elim conjE)
  have own_row: "\<exists>r. job_by_id ?s y = Some r \<and> status r = Processing"
    if "j < length ?P" "owner (?P ! j) = Some y" for j y
    using own0 that by blast
  have own_unique: "j' = j"
    if "j < length ?P" "owner (?P ! j) = Some y" "j' < length ?P" "owner (?P ! j') = Some y" for j j' y
    using own0 that by blast
  have "dispatch_inv (sys\<lparr>procs := ?P[i := p'], db := s'\<rparr>)
        \<and> (job_by_id ?s t = Some row \<longrightarrow> terminal row \<longrightarrow> job_by_id s' t = Some row)"
    using kinds
  proof (elim disjE)
    assume "outbox_jobs s' = outbox_jobs ?s \<and> owner p' = owner (?P ! i)"
    then have same: "outbox_jobs s' = outbox_jobs ?s" and o: "owner p' = owner (?P ! i)"
      by blast+
    have jb: "job_by_id s' = job_by_id ?s"
      using same by (rule job_by_id_same_jobs)
    have "dispatch_inv (sys\<lparr>procs := ?P[i := p'], db := s'\<rparr>)"
    proof (rule dispatch_inv_update [OF inv i sf])
      show "map job_id (outbox_jobs s') = map job_id (outbox_jobs ?s)"
        unfolding same ..
    next
      fix j y
      assume j: "j < length ?P" "j \<noteq> i" "owner (?P ! j) = Some y"
      have "owner (?P ! i) \<noteq> Some y"
      proof
        assume "owner (?P ! i) = Some y"
        with j(1,3) i have "i = j" by (intro own_unique [of j y i])
        with j(2) show False by simp
      qed
      then show "job_by_id s' y = job_by_id ?s y \<and> owner p' \<noteq> Some y"
        unfolding jb o by simp
    next
      fix y
      assume "owner p' = Some y"
      then have "owner (?P ! i) = Some y" unfolding o .
      with i show "\<exists>r. job_by_id s' y = Some r \<and> status r = Processing"
        unfolding jb by (rule own_row)
    qed
    then show ?thesis unfolding jb by simp
  next
    assume "\<exists>x r r'. owner (?P ! i) = None \<and> job_by_id ?s x = Some r \<and> status r = Queued
             \<and> touches x ?s s' \<and> job_by_id s' x = Some r' \<and> status r' = Processing
             \<and> (owner p' = None \<or> owner p' = Some x)"
    then obtain x r r' where none: "owner (?P ! i) = None"
      and q: "job_by_id ?s x = Some r" "status r = Queued"
      and t: "touches x ?s s'"
      and p: "job_by_id s' x = Some r'" "status r' = Processing"
      and o: "owner p' = None \<or> owner p' = Some x"
      by blast
    have free: "owner (?P ! j) \<noteq> Some x" if "j < length ?P" for j
    proof
      assume "owner (?P ! j) = Some x"
      with that obtain r0 where "job_by_id ?s x = Some r0" "status r0 = Processing"
        using own_row by blast
      with q show False by simp
    qed
    have other: "job_by_id s' y = job_by_id ?s y" if "y \<noteq> x" for y
      using t that unfolding touches_def by blast
    have "dispatch_inv (sys\<lparr>procs := ?P[i := p'], db := s'\<rparr>)"
    proof (rule dispatch_inv_update [OF inv i sf])
      show "map job_id (outbox_jobs s') = map job_id (outbox_jobs ?s)"
        using t unfolding touches_def by (rule conjunct1)
    next
      fix j y
      assume j: "j < length ?P" "j \<noteq> i" "owner (?P ! j) = Some y"
      with free [OF j(1)] have "y \<noteq> x" by auto
      with o other show "job_by_id s' y = job_by_id ?s y \<and> owner p' \<noteq> Some y"
        by auto
    next
      fix y
      assume "owner p' = Some y"
      with o have "y = x" by auto
      with p show "\<exists>r. job_by_id s' y = Some r \<and> status r = Processing"
        by simp
    qed
    moreover have "job_by_id s' t = Some row" if "job_by_id ?s t = Some row" "terminal row"
    proof -
      from that q have "t \<noteq> x" by (auto simp: terminal_def)
      with that(1) show ?thesis by (simp add: other)
    qed
    ultimately show ?thesis by blast
  next
    assume "\<exists>x. owner (?P ! i) = Some x \<and> touches x ?s s' \<and> owner p' = None"
    then obtain x where mine: "owner (?P ! i) = Some x" and t: "touches x ?s s'"
      and o: "owner p' = None"
      by blast
    from own_row [OF i mine] obtain r0 where r0: "job_by_id ?s x = Some r0" "status r0 = Processing"
      by blast
    have other: "job_by_id s' y = job_by_id ?s y" if "y \<noteq> x" for y
      using t that unfolding touches_def by blast
    have "dispatch_inv (sys\<lparr>procs := ?P[i := p'], db := s'\<rparr>)"
    proof (rule dispatch_inv_update [OF inv i sf])
      show "map job_id (outbox_jobs s') = map job_id (outbox_jobs ?s)"
        using t unfolding touches_def by (rule conjunct1)
    next
      fix j y
      assume j: "j < length ?P" "j \<noteq> i" "owner (?P ! j) = Some y"
      have "y \<noteq> x"
      proof
        assume "y = x"
        with j(1,3) i mine have "i = j" by (intro own_unique [of j x i]) simp_all
        with j(2) show False by simp
      qed
      with o other show "job_by_id s' y = job_by_id ?s y \<and> owner p' \<noteq> Some y"
        by simp
    next
      fix y
      assume "owner p' = Some y"
      with o show "\<exists>r. job_by_id s' y = Some r \<and> status r = Processing"
        by simp
    qed
    moreover have "job_by_id s' t = Some row" if "job_by_id ?s t = Some row" "terminal row"
    proof -
      from that r0 have "t \<noteq> x" by (auto simp: terminal_def)
      with that(1) show ?thesis by (simp add: other)
    qed
    ultimately show ?thesis by blast
  qed
  then show "dispatch_inv (sys\<lparr>procs := (procs sys)[i := p'], db := s'\<rparr>)"
    and "job_by_id (db sys) t = Some row \<Longrightarrow> terminal row \<Longrightarrow> job_by_id s' t = Some row"
    by blast+
qed

lemma dispatch_inv_step:
  assumes inv: "dispatch_inv sys"
  shows "dispatch_inv (step MAX_ATTEMPTS ev sys)"
    and "job_by_id (db sys) t = Some row \<Longrightarrow> terminal row \<Longrightarrow>
         job_by_id (db (step MAX_ATTEMPTS ev sys)) t = Some row"
proof -
  let ?P = "procs sys"
  from inv have d: "distinct (map job_id (outbox_jobs (db sys)))"
    unfolding dispatch_inv_def by (rule conjunct1)
  from inv have all: "list_all single_flight ?P"
    unfolding dispatch_inv_def by (elim conjE)
  have "\<exists>i p' s'. i < length ?P \<and> step MAX_ATTEMPTS ev sys = sys\<lparr>procs := ?P[i := p'], db := s'\<rparr>
          \<and> single_flight p'
          \<and> ((outbox_jobs s' = outbox_jobs (db sys) \<and> owner p' = owner (?P ! i))
             \<or> (\<exists>x r r'. owner (?P ! i) = None \<and> job_by_id (db sys) x = Some r \<and> status r = Queued
                   \<and> touches x (db sys) s' \<and> job_by_id s' x = Some r' \<and> status r' = Processing
                   \<and> (owner p' = None \<or> owner p' = Some x))
             \<or> (\<exists>x. owner (?P ! i) = Some x \<and> touches x (db sys) s' \<and> owner p' = None))"
    if "step MAX_ATTEMPTS ev sys \<noteq> sys"
  proof (cases ev)
    case (Timer i)
    with that have i: "i < length ?P" by (auto split: if_splits)
    with all have sf: "single_flight (?P ! i)" by (simp add: list_all_length)
    let ?p' = "processOutboundJob_call (?P ! i)"
    from Timer i have "step MAX_ATTEMPTS ev sys = sys\<lparr>procs := ?P[i := ?p'], db := db sys\<rparr>"
      by simp
    moreover from sf have "single_flight ?p'" by (rule single_flight_call)
    moreover from sf have "owner ?p' = owner (?P ! i)" by (rule owner_call)
    ultimately show ?thesis using i by blast
  next
    case (Resume i k e)
    with that have i: "i < length ?P" by (auto split: if_splits)
    with all have sf: "single_flight (?P ! i)" by (simp add: list_all_length)
    obtain p' s' where pr: "processOutboundJob_resume MAX_ATTEMPTS e k (?P ! i, db sys) = (p', s')"
      by (cases "processOutboundJob_resume MAX_ATTEMPTS e k (?P ! i, db sys)")
    from Resume i pr have "step MAX_ATTEMPTS ev sys = sys\<lparr>procs := ?P[i := p'], db := s'\<rparr>"
      by simp
    moreover from single_flight_resume [OF sf, of MAX_ATTEMPTS e k "db sys"] pr
    have "single_flight p'" by simp
    moreover note proc_resume_kinds [OF d sf pr]
    ultimately show ?thesis using i by blast
  qed
  then have "dispatch_inv (step MAX_ATTEMPTS ev sys)
      \<and> (job_by_id (db sys) t = Some row \<longrightarrow> terminal row \<longrightarrow>
           job_by_id (db (step MAX_ATTEMPTS ev sys)) t = Some row)"
  proof (cases "step MAX_ATTEMPTS ev sys = sys")
    case True
    with inv show ?thesis by simp
  next
    case False
    with \<open>step MAX_ATTEMPTS ev sys \<noteq> sys \<Longrightarrow> _\<close>
    obtain i p' s' where i: "i < length ?P"
      and st: "step MAX_ATTEMPTS ev sys = sys\<lparr>procs := ?P[i := p'], db := s'\<rparr>"
      and sf: "single_flight p'"
      and kinds: "(outbox_jobs s' = outbox_jobs (db sys) \<and> owner p' = owner (?P ! i))
             \<or> (\<exists>x r r'. owner (?P ! i) = None \<and> job_by_id (db sys) x = Some r \<and> status r = Queued
                   \<and> touches x (db sys) s' \<and> job_by_id s' x = Some r' \<and> status r' = Processing
                   \<and> (owner p' = None \<or> owner p' = Some x))
             \<or> (\<exists>x. owner (?P ! i) = Some x \<and> touches x (db sys) s' \<and> owner p' = None)"
      by blast
    note k = dispatch_inv_kinds [OF inv i sf kinds]
    have "db (step MAX_ATTEMPTS ev sys) = s'" unfolding st by simp
    with k(1) k(2) [of t row] show ?thesis unfolding st by simp
  qed
  then show "dispatch_inv (step MAX_ATTEMPTS ev sys)"
    and "job_by_id (db sys) t = Some row \<Longrightarrow> terminal row \<Longrightarrow>
         job_by_id (db (step MAX_ATTEMPTS ev sys)) t = Some row"
    by blast+
qed

lemma dispatch_inv_run:
  "dispatch_inv sys \<Longrightarrow>
   dispatch_inv (run MAX_ATTEMPTS events sys)
   \<and> (job_by_id (db sys) t = Some row \<longrightarrow> terminal row \<longrightarrow>
        job_by_id (db (run MAX_ATTEMPTS events sys)) t = Some row)"
proof (induction events arbitrary: sys)
  case Nil
  then show ?case by (simp add: run_def)
next
  case (Cons ev events)
  let ?sys1 = "step MAX_ATTEMPTS ev sys"
  note s = dispatch_inv_step [OF Cons.prems, where MAX_ATTEMPTS = MAX_ATTEMPTS and ev = ev]
  have r: "run MAX_ATTEMPTS (ev # events) sys = run MAX_ATTEMPTS events ?sys1"
    by (simp add: run_def)
  from Cons.IH [OF s(1)] s(2) [where t = t and row = row] show ?case
    unfolding r by blast
qed

lemma run_append:
  "run MAX_ATTEMPTS (before @ after) sys = run MAX_ATTEMPTS after (run MAX_ATTEMPTS before sys)"
  by (simp add: run_def)

lemma all_idle_dispatch_inv:
  assumes "all_idle sys" and "distinct (map job_id (outbox_jobs (db sys)))"
  shows "dispatch_inv sys"
proof -
  from assms(1) have "owner (procs sys ! i) = None" if "i < length (procs sys)" for i
    using that by (simp add: all_idle_def list_all_length owner_def)
  with assms all_idle_single_flight [OF assms(1)] show ?thesis
    unfolding dispatch_inv_def by simp
qed

lemma claim_update_keeps_terminal:
  assumes "distinct (map job_id (outbox_jobs s))"
    and "job_by_id s t = Some row" and "terminal row"
  shows "job_by_id (fst (claim_update j s)) t = Some row"
proof (cases "\<exists>r. job_by_id s (job_id j) = Some r \<and> status r = Queued")
  case False
  then have "claim_update j s = (s, None)"
    by (auto simp: claim_update_by_id [OF assms(1)] split: option.splits)
  with assms(2) show ?thesis by simp
next
  case True
  then obtain r where r: "job_by_id s (job_id j) = Some r" "status r = Queued"
    by blast
  with assms(2,3) have "t \<noteq> job_id j"
    by (auto simp: terminal_def)
  with r assms(2) show ?thesis
    by (simp add: claim_update_by_id [OF assms(1)] job_by_id_update_job)
qed

text \<open>
  Claim C9: once a job is sent or failed, no operation of the dispatcher changes its row
  again. Workers start idle on a store with unique job ids and take any steps, in any
  interleaving; a row that is terminal at some point of the run is the same row at every
  later point. The query never selects a terminal row, and a claim, whatever row it was
  computed from, leaves every terminal row as it is.
\<close>

theorem terminal_immutable:
  assumes "all_idle sys"
    and "distinct (map job_id (outbox_jobs (db sys)))"
    and "job_by_id (db (run MAX_ATTEMPTS before sys)) t = Some row"
    and "terminal row"
  shows "job_by_id (db (run MAX_ATTEMPTS (before @ after) sys)) t = Some row
         \<and> (select_oldest_queued rows = Some j \<longrightarrow> \<not> terminal j)
         \<and> (distinct (map job_id (outbox_jobs s)) \<and> job_by_id s t' = Some row' \<and> terminal row'
              \<longrightarrow> job_by_id (fst (claim_update j' s)) t' = Some row')"
proof (intro conjI impI)
  from assms(1,2) have "dispatch_inv sys"
    by (rule all_idle_dispatch_inv)
  then have "dispatch_inv (run MAX_ATTEMPTS before sys)"
    using dispatch_inv_run by blast
  from dispatch_inv_run [OF this, of MAX_ATTEMPTS after t row] assms(3,4)
  show "job_by_id (db (run MAX_ATTEMPTS (before @ after) sys)) t = Some row"
    unfolding run_append by blast
next
  assume "select_oldest_queued rows = Some j"
  then have "status j = Queued" by (simp add: select_oldest_queued_Some)
  then show "\<not> terminal j" by (simp add: terminal_def)
next
  assume "distinct (map job_id (outbox_jobs s)) \<and> job_by_id s t' = Some row' \<and> terminal row'"
  then show "job_by_id (fst (claim_update j' s)) t' = Some row'"
    by (intro claim_update_keeps_terminal) simp_all
qed

theorem terminal_immutable_witness:
  "all_idle two_workers
   \<and> distinct (map job_id (outbox_jobs (db two_workers)))
   \<and> job_by_id (db (run 5 [] two_workers)) 2 = Some sent_job
   \<and> terminal sent_job
   \<and> job_by_id (db (run 5 ([] @ stale_claim_events @ [Resume 1 0 send_ok]) two_workers)) 2 = Some sent_job
   \<and> select_oldest_queued (outbox_jobs example_store) = Some example_job
   \<and> \<not> terminal example_job
   \<and> distinct (map job_id (outbox_jobs example_store))
   \<and> job_by_id example_store 2 = Some sent_job
   \<and> job_by_id (fst (claim_update (sent_job\<lparr>status := Queued\<rparr>) example_store)) 2 = Some sent_job"
proof -
  have h1: "all_idle two_workers"
    by (simp add: all_idle_def two_workers_def idle_def)
  have h2: "distinct (map job_id (outbox_jobs (db two_workers)))"
    by (simp add: two_workers_def example_eval)
  have h3: "job_by_id (db (run 5 [] two_workers)) 2 = Some sent_job"
    by (simp add: run_def two_workers_def job_by_id_def example_eval)
  have h4: "terminal sent_job"
    by (simp add: terminal_def sent_job_def)
  have h5: "select_oldest_queued (outbox_jobs example_store) = Some example_job"
    by code_simp
  have h6: "distinct (map job_id (outbox_jobs example_store))"
    by (simp add: example_eval)
  have h7: "job_by_id example_store 2 = Some sent_job"
    by (simp add: job_by_id_def example_eval)
  note t = terminal_immutable [OF h1 h2 h3 h4, where after = "stale_claim_events @ [Resume 1 0 send_ok]"
      and rows = "outbox_jobs example_store" and j = example_job and s = example_store
      and t' = 2 and row' = sent_job and j' = "sent_job\<lparr>status := Queued\<rparr>"]
  from t have "job_by_id (db (run 5 ([] @ stale_claim_events @ [Resume 1 0 send_ok]) two_workers)) 2 = Some sent_job"
    by (rule conjunct1)
  moreover from t h5 have "\<not> terminal example_job"
    by blast
  moreover from t h4 h6 h7 have "job_by_id (fst (claim_update (sent_job\<lparr>status := Queued\<rparr>) example_store)) 2 = Some sent_job"
    by blast
  ultimately show ?thesis using h1 h2 h3 h4 h5 h6 h7 by (intro conjI)
qed

section \<open>Cleaning the profile directory\<close>

lemma cleanEntries_file:
  "(file, File bytes) \<in> set (cleanEntries toLowerCase depth entries) \<longleftrightarrow>
   (file, File bytes) \<in> set entries \<and> \<not> isLockFile toLowerCase file"
proof (induction entries)
  case Nil
  then show ?case by simp
next
  case (Cons a entries)
  obtain entry node where a: "a = (entry, node)" by (cases a)
  show ?case
  proof (cases node)
    case (File b)
    with Cons a show ?thesis by (cases "isLockFile toLowerCase entry") auto
  next
    case (Dir sub)
    with Cons a show ?thesis by simp
  qed
qed

lemma cleanLockFilesInDir_file:
  "(file, File bytes) \<in> set (cleanLockFilesInDir toLowerCase 0 entries) \<longleftrightarrow>
   (file, File bytes) \<in> set entries \<and> \<not> isLockFile toLowerCase file"
  by (simp add: cleanEntries_file)

lemma removeBrowserProfile_member:
  "(file, node) \<in> set (removeBrowserProfile entries) \<longleftrightarrow>
   (file, node) \<in> set entries \<and> \<not> (isBrowserProfile file \<and> \<not> isSessionToken file)"
  by (simp add: removeBrowserProfile_def)

lemma lockFiles_isLockFile: "file \<in> set lockFiles \<Longrightarrow> isLockFile toLowerCase file"
  by (simp add: isLockFile_def)

lemma cleanEntries_names: "fst ` set (cleanEntries toLowerCase depth entries) \<subseteq> fst ` set entries"
proof (induction entries)
  case Nil
  then show ?case by simp
next
  case (Cons a entries)
  obtain entry node where a: "a = (entry, node)" by (cases a)
  show ?case
  proof (cases node)
    case (File b)
    with Cons a show ?thesis by (cases "isLockFile toLowerCase entry") auto
  next
    case (Dir sub)
    with Cons a show ?thesis by auto
  qed
qed

text \<open>
  For every profile directory: cleanup leaves no top-level file with one of the four
  marker names and keeps every top-level file whose name matches no lock name pattern
  with the same bytes; the preparation of the profile keeps such a file when its name
  matches a session token pattern.
\<close>

lemma cleanup_keeps_token_files:
  "(marker \<in> set lockFiles \<longrightarrow>
      (marker, File bytes') \<notin> set (cleanLockFilesInDir toLowerCase 0 entries))
   \<and> ((name, File bytes) \<in> set entries \<and> \<not> isLockFile toLowerCase name \<longrightarrow>
      (name, File bytes) \<in> set (cleanLockFilesInDir toLowerCase 0 entries))
   \<and> cleanupChromiumLockFiles toLowerCase (Some (Dir entries))
       = Some (Dir (cleanLockFilesInDir toLowerCase 0 entries))
   \<and> prepareProfile toLowerCase (Some (Dir entries))
       = Some (Dir (cleanLockFilesInDir toLowerCase 0
                      (removeBrowserProfile (cleanLockFilesInDir toLowerCase 0 entries))))
   \<and> (marker \<in> set lockFiles \<longrightarrow>
        (marker, File bytes') \<notin> set (cleanLockFilesInDir toLowerCase 0
                      (removeBrowserProfile (cleanLockFilesInDir toLowerCase 0 entries))))
   \<and> ((name, File bytes) \<in> set entries \<and> \<not> isLockFile toLowerCase name
        \<and> isSessionToken name \<longrightarrow>
        (name, File bytes) \<in> set (cleanLockFilesInDir toLowerCase 0
                      (removeBrowserProfile (cleanLockFilesInDir toLowerCase 0 entries))))"
proof (intro conjI impI)
  assume m: "marker \<in> set lockFiles"
  then have l: "isLockFile toLowerCase marker" by (rule lockFiles_isLockFile)
  then show "(marker, File bytes') \<notin> set (cleanLockFilesInDir toLowerCase 0 entries)"
    unfolding cleanLockFilesInDir_file by simp
  from l show "(marker, File bytes') \<notin> set (cleanLockFilesInDir toLowerCase 0
                      (removeBrowserProfile (cleanLockFilesInDir toLowerCase 0 entries)))"
    unfolding cleanLockFilesInDir_file by simp
next
  assume "(name, File bytes) \<in> set entries \<and> \<not> isLockFile toLowerCase name"
  then show "(name, File bytes) \<in> set (cleanLockFilesInDir toLowerCase 0 entries)"
    unfolding cleanLockFilesInDir_file .
next
  show "cleanupChromiumLockFiles toLowerCase (Some (Dir entries))
       = Some (Dir (cleanLockFilesInDir toLowerCase 0 entries))"
    by (simp del: cleanLockFilesInDir.simps)
next
  show "prepareProfile toLowerCase (Some (Dir entries))
       = Some (Dir (cleanLockFilesInDir toLowerCase 0
                      (removeBrowserProfile (cleanLockFilesInDir toLowerCase 0 entries))))"
    by (simp del: cleanLockFilesInDir.simps)
next
  assume a: "(name, File bytes) \<in> set entries \<and> \<not> isLockFile toLowerCase name
        \<and> isSessionToken name"
  then have "(name, File bytes) \<in> set (cleanLockFilesInDir toLowerCase 0 entries)"
    unfolding cleanLockFilesInDir_file by blast
  with a have "(name, File bytes) \<in> set (removeBrowserProfile (cleanLockFilesInDir toLowerCase 0 entries))"
    unfolding removeBrowserProfile_member by blast
  with a show "(name, File bytes) \<in> set (cleanLockFilesInDir toLowerCase 0
                      (removeBrowserProfile (cleanLockFilesInDir toLowerCase 0 entries)))"
    unfolding cleanLockFilesInDir_file by blast
qed

text \<open>
  For every profile directory that exists, the preparation of the profile leaves no
  top-level entry named \<open>Default\<close>: the directory is removed with all it holds.
\<close>

lemma prepareProfile_removes_Default:
  "\<exists>entries'. prepareProfile toLowerCase (Some (Dir entries)) = Some (Dir entries')
      \<and> js ''Default'' \<notin> fst ` set entries'"
proof -
  let ?cleaned = "cleanLockFilesInDir toLowerCase 0 entries"
  have b: "isBrowserProfile (js ''Default'')" and t: "\<not> isSessionToken (js ''Default'')"
    by code_simp+
  then have "js ''Default'' \<notin> fst ` set (removeBrowserProfile ?cleaned)"
    by (auto simp: removeBrowserProfile_member)
  moreover have "fst ` set (cleanLockFilesInDir toLowerCase 0 (removeBrowserProfile ?cleaned))
      \<subseteq> fst ` set (removeBrowserProfile ?cleaned)"
    using cleanEntries_names [of toLowerCase 0 "removeBrowserProfile ?cleaned"] by simp
  ultimately have "js ''Default'' \<notin> fst ` set (cleanLockFilesInDir toLowerCase 0 (removeBrowserProfile ?cleaned))"
    by blast
  then show ?thesis by (simp del: cleanLockFilesInDir.simps)
qed

text \<open>
  Claim C7 against the source: the preparation of the profile removes the \<open>Default\<close>
  directory with the session token file \<open>.data\<close> and the cookies it holds, and
  \<open>cleanupChromiumLockFiles\<close>, which tests lock names only, unlinks \<open>lock.data\<close>, a file with
  a session token name. Of the profile only \<open>wppconnect.json\<close> is left.
\<close>

theorem prepare_deletes_session_tokens:
  "isSessionToken (js ''.data'')
   \<and> isSessionToken (js ''lock.data'')
   \<and> cleanupChromiumLockFiles asciiLowerCase (Some (Dir example_profile))
       = Some (Dir [(js ''wppconnect.json'', File [3, 4, 5]),
                    (js ''Default'', Dir [(js ''.data'', File [7, 8]), (js ''Cookies'', File [9])])])
   \<and> prepareProfile asciiLowerCase (Some (Dir example_profile))
       = Some (Dir [(js ''wppconnect.json'', File [3, 4, 5])])"
  by code_simp

section \<open>The retries of the client start\<close>

text \<open>
  The result of \<open>startWhatsAppClient\<close> for any behaviour of the attempts: the kind of the
  error decides the cleaning and the waiting, not whether the next attempt is made.
\<close>

lemma startWhatsAppClient_result:
  "fst (startWhatsAppClient try_body) =
     (case try_body 1 of Started \<Rightarrow> Ready
      | Threw e1 \<Rightarrow>
          (case try_body 2 of Started \<Rightarrow> Ready
           | Threw e2 \<Rightarrow>
               (case try_body 3 of Started \<Rightarrow> Ready | Threw e3 \<Rightarrow> Fatal e3)))"
proof -
  have three: "fst (startWhatsAppClient_loop try_body 3 l ev) =
      (case try_body 3 of Started \<Rightarrow> Ready | Threw e3 \<Rightarrow> Fatal e3)" for l ev
    by (subst startWhatsAppClient_loop.simps)
      (simp add: maxRetries_def split: attempt_outcome.splits)
  have two: "fst (startWhatsAppClient_loop try_body 2 l ev) =
      (case try_body 2 of Started \<Rightarrow> Ready
       | Threw e2 \<Rightarrow> (case try_body 3 of Started \<Rightarrow> Ready | Threw e3 \<Rightarrow> Fatal e3))" for l ev
    by (subst startWhatsAppClient_loop.simps)
      (simp add: maxRetries_def three split: attempt_outcome.splits)
  have two': "fst (startWhatsAppClient_loop try_body (Suc (Suc 0)) l ev) =
      (case try_body 2 of Started \<Rightarrow> Ready
       | Threw e2 \<Rightarrow> (case try_body 3 of Started \<Rightarrow> Ready | Threw e3 \<Rightarrow> Fatal e3))" for l ev
    using two [of l ev] by (simp only: numeral_2_eq_2)
  show ?thesis
    unfolding startWhatsAppClient_def
    by (subst startWhatsAppClient_loop.simps)
      (simp add: maxRetries_def two' split: attempt_outcome.splits)
qed

text \<open>
  Claim C6 against the source: an error that is no singleton lock error is not thrown at
  once. The test after the \<open>if\<close> block throws only at the last attempt, so the loop goes
  on to the next attempt, without the wait between the attempts: a browser that fails to
  launch once is started at the second attempt. A singleton lock error at every attempt
  is fatal after three attempts, with a wait of a second before each retry.
\<close>

theorem other_error_is_retried:
  "\<not> isSingletonLockError (js ''Failed to launch the browser process'')
   \<and> launch_fails_once 1 = Threw (js ''Failed to launch the browser process'')
   \<and> startWhatsAppClient launch_fails_once = (Ready, [Try 1, Try 2])
   \<and> startWhatsAppClient always_in_use =
       (Fatal (js ''The profile appears to be in use by another process''),
        [Try 1, Cleanup, Sleep 300, Cleanup, Sleep 300, Cleanup, Sleep 1000,
         Try 2, Cleanup, Sleep 300, Cleanup, Sleep 300, Cleanup, Sleep 1000,
         Try 3, Cleanup, Sleep 300, Cleanup, Sleep 300, Cleanup])"
  by code_simp

end
